theory Spec2Isabelle
  imports Complex_Main "HOL-Library.Word"
begin

unbundle bit_operations_syntax

section \<open>Python values shared by both services\<close>

text \<open>
  Exceptions are values. Each constructor is one exception the two services can raise,
  with the payload Python puts into its message:
  \<^item> \<open>IntValueError tok\<close>: \<^verbatim>\<open>ValueError: invalid literal for int() with base 10: 'tok'\<close>;
  \<^item> \<open>FloatValueError tok\<close>: \<^verbatim>\<open>ValueError: could not convert string to float: 'tok'\<close>;
  \<^item> \<open>IndexError\<close>: a list, tuple or array index out of range;
  \<^item> \<open>UnableToLoad\<close>: the \<^verbatim>\<open>ValueError("Unable to load point cloud from {path}")\<close>
    of \<^verbatim>\<open>load_point_cloud\<close>;
  \<^item> \<open>ZeroSizeReduction\<close>: numpy's \<^verbatim>\<open>ValueError: zero-size array to reduction operation
    ... which has no identity\<close>;
  \<^item> \<open>StructError\<close>: \<^verbatim>\<open>struct.error\<close>, an argument out of range for its format.
\<close>

datatype py_error =
    IntValueError string
  | FloatValueError string
  | IndexError
  | UnableToLoad
  | ZeroSizeReduction
  | StructError

definition ebind :: "py_error + 'a \<Rightarrow> ('a \<Rightarrow> py_error + 'b) \<Rightarrow> py_error + 'b" where
  "ebind m f = (case m of Inl e \<Rightarrow> Inl e | Inr x \<Rightarrow> f x)"

text \<open>\<^verbatim>\<open>xs[i]\<close> for a non-negative constant index.\<close>

definition idx :: "'a list \<Rightarrow> nat \<Rightarrow> py_error + 'a" where
  "idx xs i = (if i < length xs then Inr (xs ! i) else Inl IndexError)"

text \<open>A list comprehension whose body may raise: the first failure aborts it.\<close>

fun emap :: "('a \<Rightarrow> py_error + 'b) \<Rightarrow> 'a list \<Rightarrow> py_error + 'b list" where
  "emap f [] = Inr []"
| "emap f (x # xs) = ebind (f x) (\<lambda>y. ebind (emap f xs) (\<lambda>ys. Inr (y # ys)))"

text \<open>\<^verbatim>\<open>Vec3\<close> of models/schemas.py, used by both services.\<close>

record 'f Vec3 =
  vx :: 'f
  vy :: 'f
  vz :: 'f

section \<open>COLMAP text parser (services/colmap\_parser.py)\<close>

subsection \<open>Lines and tokens\<close>

text \<open>
  A text file is the list of its lines, as \<^verbatim>\<open>for line in f\<close> yields them. Characters are
  the code points below 256; the whitespace of \<^verbatim>\<open>str.strip\<close>, \<^verbatim>\<open>str.split\<close> and of
  \<^verbatim>\<open>\s\<close> in a \<^verbatim>\<open>str\<close> pattern is the same set there: TAB, LF, VT, FF, CR, FS, GS, RS, US,
  space, NEL and NBSP.
\<close>

definition is_space :: "char \<Rightarrow> bool" where
  "is_space c = (c \<in> set [CHR 0x09, CHR 0x0A, CHR 0x0B, CHR 0x0C, CHR 0x0D,
                          CHR 0x1C, CHR 0x1D, CHR 0x1E, CHR 0x1F, CHR 0x20,
                          CHR 0x85, CHR 0xA0])"

text \<open>\<^verbatim>\<open>_COMMENT = re.compile(r"^\s*#")\<close>, applied with \<^verbatim>\<open>match\<close>.\<close>

definition COMMENT_match :: "string \<Rightarrow> bool" where
  "COMMENT_match line =
     (case dropWhile is_space line of [] \<Rightarrow> False | c # _ \<Rightarrow> c = CHR ''#'')"

definition strip :: "string \<Rightarrow> string" where
  "strip s = rev (dropWhile is_space (rev (dropWhile is_space s)))"

text \<open>
  \<^verbatim>\<open>str.split()\<close> with no separator: the maximal runs of non-whitespace characters.
  \<open>cur\<close> is the run being read.
\<close>

fun split_from :: "string \<Rightarrow> string \<Rightarrow> string list" where
  "split_from cur [] = (if cur = [] then [] else [cur])"
| "split_from cur (c # cs) =
     (if is_space c then (if cur = [] then split_from [] cs else cur # split_from [] cs)
      else split_from (cur @ [c]) cs)"

definition split :: "string \<Rightarrow> string list" where
  "split s = split_from [] s"

text \<open>The lines both loops keep: \<^verbatim>\<open>not _COMMENT.match(l) and l.strip()\<close>.\<close>

definition qualifies :: "string \<Rightarrow> bool" where
  "qualifies l = (\<not> COMMENT_match l \<and> strip l \<noteq> [])"

subsection \<open>Numeric conversion\<close>

definition is_digit :: "char \<Rightarrow> bool" where
  "is_digit c = (c \<in> set ''0123456789'')"

definition digit_val :: "char \<Rightarrow> nat" where
  "digit_val c = of_char c - 48"

text \<open>
  The digits of a base-10 literal after its sign: at least one digit, single underscores
  allowed between digits. \<open>acc\<close> is the value read so far.
\<close>

fun int_digits :: "nat \<Rightarrow> string \<Rightarrow> nat option" where
  "int_digits acc [] = Some acc"
| "int_digits acc [c] = (if is_digit c then Some (acc * 10 + digit_val c) else None)"
| "int_digits acc (c # d # cs) =
     (if is_digit c then int_digits (acc * 10 + digit_val c) (d # cs)
      else if c = CHR ''_'' \<and> is_digit d then int_digits acc (d # cs)
      else None)"

definition int_unsigned :: "string \<Rightarrow> nat option" where
  "int_unsigned s =
     (case s of [] \<Rightarrow> None | c # _ \<Rightarrow> if is_digit c then int_digits 0 s else None)"

text \<open>
  \<^verbatim>\<open>int(tok)\<close> on a token (a string without whitespace), for ASCII digits: an optional sign,
  then the digits.
\<close>

definition py_int :: "string \<Rightarrow> py_error + int" where
  "py_int tok =
     (case (case tok of
              c # r \<Rightarrow> if c = CHR ''-'' then map_option (\<lambda>n. - int n) (int_unsigned r)
                       else if c = CHR ''+'' then map_option int (int_unsigned r)
                       else map_option int (int_unsigned tok)
            | [] \<Rightarrow> None) of
        None \<Rightarrow> Inl (IntValueError tok)
      | Some i \<Rightarrow> Inr i)"

text \<open>
  \<^verbatim>\<open>float(tok)\<close>: the builtin's grammar and its rounding to a double are not part of this
  repository, so the conversion is a parameter \<open>flt\<close> of every parser, \<open>None\<close> where the
  builtin raises \<^verbatim>\<open>ValueError\<close>.
\<close>

definition py_float :: "(string \<Rightarrow> 'f option) \<Rightarrow> string \<Rightarrow> py_error + 'f" where
  "py_float flt tok = (case flt tok of None \<Rightarrow> Inl (FloatValueError tok) | Some x \<Rightarrow> Inr x)"

subsection \<open>Records (models/schemas.py)\<close>

record 'f Quaternion =
  qw :: 'f
  qx :: 'f
  qy :: 'f
  qz :: 'f

record 'f ColmapCamera =
  cam_id :: int
  model :: string
  width :: int
  height :: int
  params :: "'f list"

record 'f ColmapImage =
  img_id :: int
  camera_id :: int
  name :: string
  rotation :: "'f Quaternion"
  translation :: "'f Vec3"
  room_id :: "string option"

text \<open>The dict literal of \<^verbatim>\<open>parse_points3d_txt\<close>, one field per key.\<close>

record 'f Point3D =
  pt_id :: int
  pt_x :: 'f
  pt_y :: 'f
  pt_z :: 'f
  pt_r :: int
  pt_g :: int
  pt_b :: int
  pt_error :: 'f

subsection \<open>cameras.txt\<close>

text \<open>
  The constructor call of the loop body. Python evaluates the keyword arguments left to
  right, so the first failing conversion or index is the exception raised.
\<close>

definition camera_of_parts ::
  "(string \<Rightarrow> 'f option) \<Rightarrow> string list \<Rightarrow> py_error + 'f ColmapCamera" where
  "camera_of_parts flt parts =
     ebind (ebind (idx parts 0) py_int) (\<lambda>i.
     ebind (idx parts 1) (\<lambda>m.
     ebind (ebind (idx parts 2) py_int) (\<lambda>w.
     ebind (ebind (idx parts 3) py_int) (\<lambda>h.
     ebind (emap (py_float flt) (drop 4 parts)) (\<lambda>ps.
     Inr \<lparr>cam_id = i, model = m, width = w, height = h, params = ps\<rparr>)))))"

fun parse_cameras_txt ::
  "(string \<Rightarrow> 'f option) \<Rightarrow> string list \<Rightarrow> py_error + 'f ColmapCamera list" where
  "parse_cameras_txt flt [] = Inr []"
| "parse_cameras_txt flt (line # f) =
     (if COMMENT_match line \<or> strip line = [] then parse_cameras_txt flt f
      else ebind (camera_of_parts flt (split (strip line))) (\<lambda>cam.
           ebind (parse_cameras_txt flt f) (\<lambda>cameras. Inr (cam # cameras))))"

subsection \<open>images.txt\<close>

definition image_of_parts ::
  "(string \<Rightarrow> 'f option) \<Rightarrow> string list \<Rightarrow> py_error + 'f ColmapImage" where
  "image_of_parts flt parts =
     ebind (ebind (idx parts 0) py_int) (\<lambda>i.
     ebind (ebind (idx parts 1) (py_float flt)) (\<lambda>w.
     ebind (ebind (idx parts 2) (py_float flt)) (\<lambda>x.
     ebind (ebind (idx parts 3) (py_float flt)) (\<lambda>y.
     ebind (ebind (idx parts 4) (py_float flt)) (\<lambda>z.
     ebind (ebind (idx parts 5) (py_float flt)) (\<lambda>tx.
     ebind (ebind (idx parts 6) (py_float flt)) (\<lambda>ty.
     ebind (ebind (idx parts 7) (py_float flt)) (\<lambda>tz.
     ebind (ebind (idx parts 8) py_int) (\<lambda>c.
     ebind (idx parts 9) (\<lambda>n.
     Inr \<lparr>img_id = i, camera_id = c, name = n,
          rotation = \<lparr>qw = w, qx = x, qy = y, qz = z\<rparr>,
          translation = \<lparr>vx = tx, vy = ty, vz = tz\<rparr>,
          room_id = None\<rparr>))))))))))"

text \<open>
  The \<^verbatim>\<open>while i < len(lines)\<close> loop, on the lines from index \<open>i\<close> on: \<^verbatim>\<open>i += 1\<close> drops one
  line, \<^verbatim>\<open>i += 2\<close> drops two (\<open>drop 1\<close> of the rest, which may be empty).
\<close>

fun images_loop ::
  "(string \<Rightarrow> 'f option) \<Rightarrow> string list \<Rightarrow> py_error + 'f ColmapImage list" where
  "images_loop flt [] = Inr []"
| "images_loop flt (l # ls) =
     (let parts = split (strip l) in
      if length parts < 10 then images_loop flt ls
      else ebind (image_of_parts flt parts) (\<lambda>img.
           ebind (images_loop flt (drop 1 ls)) (\<lambda>images. Inr (img # images))))"

definition parse_images_txt ::
  "(string \<Rightarrow> 'f option) \<Rightarrow> string list \<Rightarrow> py_error + 'f ColmapImage list" where
  "parse_images_txt flt f = images_loop flt (filter qualifies f)"

subsection \<open>points3D.txt\<close>

definition point_of_parts ::
  "(string \<Rightarrow> 'f option) \<Rightarrow> string list \<Rightarrow> py_error + 'f Point3D" where
  "point_of_parts flt parts =
     ebind (ebind (idx parts 0) py_int) (\<lambda>i.
     ebind (ebind (idx parts 1) (py_float flt)) (\<lambda>x.
     ebind (ebind (idx parts 2) (py_float flt)) (\<lambda>y.
     ebind (ebind (idx parts 3) (py_float flt)) (\<lambda>z.
     ebind (ebind (idx parts 4) py_int) (\<lambda>r.
     ebind (ebind (idx parts 5) py_int) (\<lambda>g.
     ebind (ebind (idx parts 6) py_int) (\<lambda>b.
     ebind (ebind (idx parts 7) (py_float flt)) (\<lambda>e.
     Inr \<lparr>pt_id = i, pt_x = x, pt_y = y, pt_z = z,
          pt_r = r, pt_g = g, pt_b = b, pt_error = e\<rparr>))))))))"

fun parse_points3d_txt ::
  "(string \<Rightarrow> 'f option) \<Rightarrow> string list \<Rightarrow> py_error + 'f Point3D list" where
  "parse_points3d_txt flt [] = Inr []"
| "parse_points3d_txt flt (line # f) =
     (if COMMENT_match line \<or> strip line = [] then parse_points3d_txt flt f
      else ebind (point_of_parts flt (split (strip line))) (\<lambda>p.
           ebind (parse_points3d_txt flt f) (\<lambda>points. Inr (p # points))))"

subsection \<open>The workspace\<close>

text \<open>
  A workspace directory is its three files, \<open>None\<close> for one that does not exist. The
  result dict has a key for each file that exists.
\<close>

record workspace =
  cameras_txt :: "string list option"
  images_txt :: "string list option"
  points3D_txt :: "string list option"

record 'f colmap_result =
  cameras :: "'f ColmapCamera list option"
  images :: "'f ColmapImage list option"
  points :: "'f Point3D list option"

text \<open>\<^verbatim>\<open>if p.exists(): result[k] = parse(p)\<close>\<close>

definition if_exists ::
  "string list option \<Rightarrow> (string list \<Rightarrow> py_error + 'a) \<Rightarrow> py_error + 'a option" where
  "if_exists file parse =
     (case file of None \<Rightarrow> Inr None | Some f \<Rightarrow> ebind (parse f) (\<lambda>r. Inr (Some r)))"

definition load_colmap_workspace ::
  "(string \<Rightarrow> 'f option) \<Rightarrow> workspace \<Rightarrow> py_error + 'f colmap_result" where
  "load_colmap_workspace flt ws =
     ebind (if_exists (cameras_txt ws) (parse_cameras_txt flt)) (\<lambda>cs.
     ebind (if_exists (images_txt ws) (parse_images_txt flt)) (\<lambda>is.
     ebind (if_exists (points3D_txt ws) (parse_points3d_txt flt)) (\<lambda>ps.
     Inr \<lparr>cameras = cs, images = is, points = ps\<rparr>)))"

text \<open>
  A conversion for the examples: \<^verbatim>\<open>float\<close> restricted to the literals \<^verbatim>\<open>int\<close> accepts,
  with the integer as the value.
\<close>

definition flt_int :: "string \<Rightarrow> int option" where
  "flt_int tok = (case py_int tok of Inl _ \<Rightarrow> None | Inr i \<Rightarrow> Some i)"

subsection \<open>The vocabulary of the properties\<close>

text \<open>
  A well-formed image line, as the format gives it:
  \<^verbatim>\<open>IMAGE_ID QW QX QY QZ TX TY TZ CAMERA_ID NAME\<close>. \<open>image_line flt l img\<close> holds when
  \<open>l\<close> is kept by the filter, has at least 10 tokens, and \<open>img\<close> is the record with
  exactly the converted tokens as its fields.
\<close>

definition image_line :: "(string \<Rightarrow> 'f option) \<Rightarrow> string \<Rightarrow> 'f ColmapImage \<Rightarrow> bool" where
  "image_line flt l img =
     (let t = split (strip l) in
      qualifies l \<and> 10 \<le> length t \<and>
      py_int (t ! 0) = Inr (img_id img) \<and>
      flt (t ! 1) = Some (qw (rotation img)) \<and>
      flt (t ! 2) = Some (qx (rotation img)) \<and>
      flt (t ! 3) = Some (qy (rotation img)) \<and>
      flt (t ! 4) = Some (qz (rotation img)) \<and>
      flt (t ! 5) = Some (vx (translation img)) \<and>
      flt (t ! 6) = Some (vy (translation img)) \<and>
      flt (t ! 7) = Some (vz (translation img)) \<and>
      py_int (t ! 8) = Inr (camera_id img) \<and>
      t ! 9 = name img \<and>
      room_id img = None)"

text \<open>
  A file of image pairs: each entry is the odd line, the even (track) line and the record
  expected for the pair.
\<close>

definition pair_lines :: "(string \<times> string \<times> 'a) list \<Rightarrow> string list" where
  "pair_lines pairs = concat (map (\<lambda>(odd, even, img). [odd, even]) pairs)"

definition pair_images :: "(string \<times> string \<times> 'a) list \<Rightarrow> 'a list" where
  "pair_images pairs = map (\<lambda>(odd, even, img). img) pairs"

text \<open>The tokens at the numeric positions of a line all convert.\<close>

definition camera_tokens_numeric :: "(string \<Rightarrow> 'f option) \<Rightarrow> string list \<Rightarrow> bool" where
  "camera_tokens_numeric flt t =
     (\<not> isl (py_int (t ! 0)) \<and> \<not> isl (py_int (t ! 2)) \<and> \<not> isl (py_int (t ! 3)) \<and>
      (\<forall>p \<in> set (drop 4 t). flt p \<noteq> None))"

definition point_tokens_numeric :: "(string \<Rightarrow> 'f option) \<Rightarrow> string list \<Rightarrow> bool" where
  "point_tokens_numeric flt t =
     (\<not> isl (py_int (t ! 0)) \<and> flt (t ! 1) \<noteq> None \<and> flt (t ! 2) \<noteq> None \<and>
      flt (t ! 3) \<noteq> None \<and> \<not> isl (py_int (t ! 4)) \<and> \<not> isl (py_int (t ! 5)) \<and>
      \<not> isl (py_int (t ! 6)) \<and> flt (t ! 7) \<noteq> None)"

definition image_tokens_numeric :: "(string \<Rightarrow> 'f option) \<Rightarrow> string list \<Rightarrow> bool" where
  "image_tokens_numeric flt t =
     (\<not> isl (py_int (t ! 0)) \<and> flt (t ! 1) \<noteq> None \<and> flt (t ! 2) \<noteq> None \<and>
      flt (t ! 3) \<noteq> None \<and> flt (t ! 4) \<noteq> None \<and> flt (t ! 5) \<noteq> None \<and>
      flt (t ! 6) \<noteq> None \<and> flt (t ! 7) \<noteq> None \<and> \<not> isl (py_int (t ! 8)))"

text \<open>
  The lines of \<^verbatim>\<open>images.txt\<close> that are read as image lines: of the kept lines, a line with
  fewer than 10 tokens is passed over alone, and a line with at least 10 tokens is an
  image line and takes the line after it, its track line, with it.
\<close>

fun image_lines :: "string list \<Rightarrow> string list" where
  "image_lines [] = []"
| "image_lines (l # ls) =
     (if length (split (strip l)) < 10 then image_lines ls else l # image_lines (drop 1 ls))"

text \<open>
  What the error of a line can be: the \<open>IndexError\<close> of a missing token, or the
  \<^verbatim>\<open>ValueError\<close> of \<^verbatim>\<open>int\<close> or \<^verbatim>\<open>float\<close> on a token of the line that does not convert,
  which holds the text of that token and nothing else.
\<close>

definition line_error :: "(string \<Rightarrow> 'f option) \<Rightarrow> string list \<Rightarrow> py_error \<Rightarrow> bool" where
  "line_error flt toks e =
     (e = IndexError \<or>
      (\<exists>tok \<in> set toks. (e = IntValueError tok \<and> isl (py_int tok)) \<or>
                         (e = FloatValueError tok \<and> flt tok = None)))"

text \<open>
  All lines of the files of a workspace, and the workspace with the comments and blank
  lines taken out of every file (which renumbers the lines).
\<close>

definition workspace_lines :: "workspace \<Rightarrow> string list" where
  "workspace_lines ws =
     concat (map (\<lambda>file. case file of None \<Rightarrow> [] | Some f \<Rightarrow> f)
       [cameras_txt ws, images_txt ws, points3D_txt ws])"

definition kept_lines :: "workspace \<Rightarrow> workspace" where
  "kept_lines ws =
     \<lparr>cameras_txt = map_option (filter qualifies) (cameras_txt ws),
      images_txt = map_option (filter qualifies) (images_txt ws),
      points3D_txt = map_option (filter qualifies) (points3D_txt ws)\<rparr>"

section \<open>Point clouds (services/point\_cloud.py)\<close>

subsection \<open>float32 and uint8\<close>

text \<open>
  An element of a \<^verbatim>\<open>float32\<close> array is its IEEE 754 binary32 bit pattern: bit 31 the sign,
  bits 30..23 the biased exponent, bits 22..0 the fraction. \<^verbatim>\<open>tobytes\<close> emits these 32
  bits, least significant byte first on the little-endian hosts the wire format is
  specified for. The value of a pattern is a rational, an infinity or NaN; both zeros have
  the value 0.
\<close>

type_synonym f32 = "32 word"
type_synonym byte = "8 word"

datatype fval = NaN | NegInf | Finite rat | PosInf

definition pow2 :: "int \<Rightarrow> rat" where
  "pow2 k = (if 0 \<le> k then 2 ^ nat k else 1 / 2 ^ nat (- k))"

definition f32_sign :: "f32 \<Rightarrow> bool" where
  "f32_sign w = (2 ^ 31 \<le> uint w)"

definition f32_val :: "f32 \<Rightarrow> fval" where
  "f32_val w =
     (let e = (uint w div 2 ^ 23) mod 256; m = uint w mod 2 ^ 23 in
      if e = 255 then (if m = 0 then (if f32_sign w then NegInf else PosInf) else NaN)
      else Finite ((if f32_sign w then - 1 else 1) *
                   (if e = 0 then of_int m * pow2 (- 149)
                    else of_int (2 ^ 23 + m) * pow2 (e - 150))))"

text \<open>The number of binary digits of a natural number (\<^verbatim>\<open>int.bit_length\<close>).\<close>

fun bit_length :: "nat \<Rightarrow> nat" where
  "bit_length n = (if n = 0 then 0 else Suc (bit_length (n div 2)))"

declare bit_length.simps [simp del]

text \<open>\<open>ilog2 r\<close> is the integer \<open>e\<close> with \<open>2\<^sup>e \<le> r < 2\<^sup>e\<^sup>+\<^sup>1\<close>, for \<open>r > 0\<close>.\<close>

definition ilog2 :: "rat \<Rightarrow> int" where
  "ilog2 r = (if 1 \<le> r then int (bit_length (nat \<lfloor>r\<rfloor>)) - 1
              else - int (bit_length (nat (\<lceil>1 / r\<rceil> - 1))))"

text \<open>Rounding to the nearest integer, ties to even: the rounding mode of the arithmetic.\<close>

definition rne :: "rat \<Rightarrow> int" where
  "rne x = (let f = \<lfloor>x\<rfloor>; d = x - of_int f in
            if d < 1 / 2 then f else if 1 / 2 < d then f + 1
            else if even f then f else f + 1)"

text \<open>
  The exponent of the last place of the binary32 numbers around \<open>r > 0\<close>: 24 significant
  bits, and never below \<open>2\<^sup>-\<^sup>1\<^sup>4\<^sup>9\<close> (the subnormal spacing).
\<close>

definition ulp_exp :: "rat \<Rightarrow> int" where
  "ulp_exp r = max (ilog2 r) (- 126) - 23"

text \<open>
  \<open>round_f32 r\<close>, for \<open>r \<ge> 0\<close>: the multiple of the last place nearest to \<open>r\<close>, before any
  overflow to infinity.
\<close>

definition round_f32 :: "rat \<Rightarrow> rat" where
  "round_f32 r = (if r = 0 then 0 else of_int (rne (r / pow2 (ulp_exp r))) * pow2 (ulp_exp r))"

text \<open>The binary32 number nearest to any \<open>x\<close>, ties to even, before any overflow.\<close>

definition fl32 :: "rat \<Rightarrow> rat" where
  "fl32 x = (if x < 0 then - round_f32 (- x) else round_f32 x)"

text \<open>
  The bit pattern of the rounded result of an operation whose exact result has sign \<open>s\<close>
  and magnitude \<open>r \<ge> 0\<close>. With \<open>m\<close> the rounded significand in units of the last place,
  exponent field and fraction are \<open>(e + 126) * 2\<^sup>2\<^sup>3 + m\<close> (a carry out of the fraction
  increments the exponent); from the exponent field 255 on the result is infinity.
\<close>

definition f32_encode :: "bool \<Rightarrow> rat \<Rightarrow> f32" where
  "f32_encode s r =
     (let sign = (if s then 2 ^ 31 else 0 :: int) in
      if r = 0 then word_of_int sign
      else
        let q = ulp_exp r;
            n = (q + 149) * 2 ^ 23 + rne (r / pow2 q)
        in word_of_int (sign + (if 255 * 2 ^ 23 \<le> n then 255 * 2 ^ 23 else n)))"

text \<open>
  \<^verbatim>\<open>x / 255.0\<close> and \<^verbatim>\<open>x * 255\<close> in \<^verbatim>\<open>float32\<close>. An infinity stays; a NaN stays a NaN (the
  quiet bit is set).
\<close>

definition f32_div255 :: "f32 \<Rightarrow> f32" where
  "f32_div255 w =
     (case f32_val w of
        Finite r \<Rightarrow> f32_encode (f32_sign w) (\<bar>r\<bar> / 255)
      | NaN \<Rightarrow> w OR 0x00400000
      | _ \<Rightarrow> w)"

definition f32_mul255 :: "f32 \<Rightarrow> f32" where
  "f32_mul255 w =
     (case f32_val w of
        Finite r \<Rightarrow> f32_encode (f32_sign w) (\<bar>r\<bar> * 255)
      | NaN \<Rightarrow> w OR 0x00400000
      | _ \<Rightarrow> w)"

text \<open>
  Comparisons and reductions, on values. \<^verbatim>\<open>max\<close> and \<^verbatim>\<open>min\<close> of numpy propagate NaN; a
  comparison with NaN is false.
\<close>

fun fv_less :: "fval \<Rightarrow> fval \<Rightarrow> bool" where
  "fv_less NaN y = False"
| "fv_less x NaN = False"
| "fv_less PosInf y = False"
| "fv_less x NegInf = False"
| "fv_less NegInf y = True"
| "fv_less x PosInf = True"
| "fv_less (Finite a) (Finite b) = (a < b)"

definition fv_max :: "fval \<Rightarrow> fval \<Rightarrow> fval" where
  "fv_max x y = (if x = NaN \<or> y = NaN then NaN else if fv_less x y then y else x)"

definition fv_min :: "fval \<Rightarrow> fval \<Rightarrow> fval" where
  "fv_min x y = (if x = NaN \<or> y = NaN then NaN else if fv_less y x then y else x)"

text \<open>
  A reduction over a sequence of elements; numpy raises on a zero-size array, the
  operation having no identity.
\<close>

definition reduce :: "(fval \<Rightarrow> fval \<Rightarrow> fval) \<Rightarrow> fval list \<Rightarrow> py_error + fval" where
  "reduce f xs = (case xs of [] \<Rightarrow> Inl ZeroSizeReduction | x # r \<Rightarrow> Inr (foldl f x r))"

text \<open>\<^verbatim>\<open>.clip(0, 255)\<close>: \<^verbatim>\<open>minimum(maximum(x, 0), 255)\<close>.\<close>

definition clip_0_255 :: "fval \<Rightarrow> fval" where
  "clip_0_255 x = fv_min (fv_max x (Finite 0)) (Finite 255)"

text \<open>
  \<^verbatim>\<open>.astype(np.uint8)\<close> of a \<^verbatim>\<open>float32\<close>: the C conversion, which discards the fractional
  part. Of a value in \<open>[0, 255]\<close> that is all; a NaN, for which C defines no result, is
  taken to 0 (what x86-64 yields), and no other value reaches the conversion after the
  clip.
\<close>

definition astype_uint8 :: "fval \<Rightarrow> byte" where
  "astype_uint8 x =
     (case x of Finite r \<Rightarrow> word_of_int (if 0 \<le> r then \<lfloor>r\<rfloor> else \<lceil>r\<rceil>) | _ \<Rightarrow> 0)"

text \<open>Little-endian bytes of a 32-bit word, and back.\<close>

definition le_bytes32 :: "32 word \<Rightarrow> byte list" where
  "le_bytes32 w = [ucast w, ucast (drop_bit 8 w), ucast (drop_bit 16 w), ucast (drop_bit 24 w)]"

definition from_le32 :: "byte list \<Rightarrow> 32 word" where
  "from_le32 bs = foldr (\<lambda>b acc. ucast b OR push_bit 8 acc) bs 0"

subsection \<open>Arrays\<close>

text \<open>
  A two-dimensional \<^verbatim>\<open>float32\<close> array of shape \<open>(length rows, ncols)\<close>: every row has
  \<open>ncols\<close> elements (\<open>regular\<close>). The other arrays \<^verbatim>\<open>np.loadtxt\<close> returns are the 0-d
  array of a file with a single number and the 1-d array of a file with a single row or a
  single column, or with no data at all.
\<close>

record array2d =
  ncols :: nat
  rows :: "f32 list list"

datatype ndarray = Arr0 f32 | Arr1 "f32 list" | Arr2 array2d

definition regular :: "array2d \<Rightarrow> bool" where
  "regular a = (\<forall>r \<in> set (rows a). length r = ncols a)"

text \<open>The slices \<^verbatim>\<open>arr[:, :k]\<close> and \<^verbatim>\<open>arr[:, 3:6]\<close>.\<close>

definition cols_upto :: "nat \<Rightarrow> array2d \<Rightarrow> array2d" where
  "cols_upto k a = \<lparr>ncols = min k (ncols a), rows = map (take k) (rows a)\<rparr>"

definition cols_3_6 :: "array2d \<Rightarrow> array2d" where
  "cols_3_6 a = \<lparr>ncols = min 3 (ncols a - 3), rows = map (\<lambda>r. take 3 (drop 3 r)) (rows a)\<rparr>"

text \<open>\<^verbatim>\<open>arr.max()\<close> over all elements, and \<^verbatim>\<open>arr.min(axis=0)\<close>, \<^verbatim>\<open>arr.max(axis=0)\<close> per column.\<close>

definition reduce_all :: "(fval \<Rightarrow> fval \<Rightarrow> fval) \<Rightarrow> array2d \<Rightarrow> py_error + fval" where
  "reduce_all f a = reduce f (map f32_val (concat (rows a)))"

definition reduce_axis0 :: "(fval \<Rightarrow> fval \<Rightarrow> fval) \<Rightarrow> array2d \<Rightarrow> py_error + fval list" where
  "reduce_axis0 f a = emap (\<lambda>j. reduce f (map (\<lambda>r. f32_val (r ! j)) (rows a))) [0..<ncols a]"

subsection \<open>Loading\<close>

text \<open>
  The two readers are libraries outside the repository; what they return for the file is
  the input of the model.
  \<^item> \<open>open3d_read\<close>: \<open>None\<close> when \<^verbatim>\<open>import open3d\<close> or \<^verbatim>\<open>read_point_cloud\<close> raises, else
    the points and colours as \<^verbatim>\<open>np.asarray(..., dtype=np.float32)\<close> gives them (rows of 3).
  \<^item> \<open>loadtxt\<close>: \<open>None\<close> when \<^verbatim>\<open>np.loadtxt(path, dtype=np.float32)\<close> raises (a missing file,
    a token that is no number, rows of different lengths), else the array it returns.
  \<^item> \<open>suffix\<close>: \<^verbatim>\<open>path.suffix.lower()\<close>.
\<close>

record open3d_cloud =
  o3d_points :: "f32 list list"
  o3d_colors :: "f32 list list"

record source =
  suffix :: string
  open3d_read :: "open3d_cloud option"
  loadtxt :: "ndarray option"

definition try_open3d :: "open3d_cloud option \<Rightarrow> ndarray option" where
  "try_open3d r =
     (case r of
        None \<Rightarrow> None
      | Some pcd \<Rightarrow>
          let pts = o3d_points pcd; colors = o3d_colors pcd in
          if length pts = 0 then None
          else if length colors = length pts
               then Some (Arr2 \<lparr>ncols = 6, rows = map2 (@) pts colors\<rparr>)
          else Some (Arr2 \<lparr>ncols = 3, rows = pts\<rparr>))"

definition load_xyz :: "ndarray option \<Rightarrow> ndarray option" where
  "load_xyz r =
     (case r of
        None \<Rightarrow> None
      | Some data \<Rightarrow>
          (case data of
             Arr1 xs \<Rightarrow> Some (Arr2 \<lparr>ncols = length xs, rows = [xs]\<rparr>)
           | _ \<Rightarrow> Some data))"

text \<open>\<^verbatim>\<open>data[:, 3:6] /= 255.0\<close>, in place.\<close>

definition scale_colors :: "array2d \<Rightarrow> array2d" where
  "scale_colors a =
     a\<lparr>rows := map (\<lambda>r. take 3 r @ map f32_div255 (take 3 (drop 3 r)) @ drop 6 r) (rows a)\<rparr>"

text \<open>
  The part of \<^verbatim>\<open>load_point_cloud\<close> after the readers. \<^verbatim>\<open>data.shape[1]\<close> of an array with
  fewer than two dimensions is an index out of range.
\<close>

definition normalise :: "ndarray \<Rightarrow> py_error + array2d \<times> bool" where
  "normalise d =
     (case d of
        Arr2 data \<Rightarrow>
          if 6 \<le> ncols data then
            ebind (reduce_all fv_max (cols_3_6 data)) (\<lambda>mx.
              Inr (cols_upto 6 (if fv_less (Finite (3 / 2)) mx then scale_colors data else data),
                   True))
          else Inr (cols_upto 3 data, False)
      | _ \<Rightarrow> Inl IndexError)"

text \<open>The readers, tried in turn (\<^verbatim>\<open>data\<close> before the check \<^verbatim>\<open>if data is None: raise\<close>).\<close>

definition read_data :: "source \<Rightarrow> ndarray option" where
  "read_data src =
     (let data = (if suffix src \<in> {''.ply'', ''.pcd''} then try_open3d (open3d_read src)
                  else None)
      in case data of None \<Rightarrow> load_xyz (loadtxt src) | Some d \<Rightarrow> Some d)"

definition load_point_cloud :: "source \<Rightarrow> py_error + array2d \<times> bool" where
  "load_point_cloud src =
     (case read_data src of None \<Rightarrow> Inl UnableToLoad | Some d \<Rightarrow> normalise d)"

subsection \<open>Metadata\<close>

record PointCloudInfo =
  info_file :: string
  num_points :: nat
  bounds_min :: "fval Vec3"
  bounds_max :: "fval Vec3"
  has_colors :: bool
  has_normals :: bool

text \<open>
  The body of \<^verbatim>\<open>point_cloud_info\<close> after the load: the operation \<^verbatim>\<open>describe\<close> of the
  specification. \<^verbatim>\<open>float(mins[0])\<close> is the value of the element.
\<close>

definition describe :: "string \<Rightarrow> array2d \<Rightarrow> bool \<Rightarrow> py_error + PointCloudInfo" where
  "describe path arr hc =
     ebind (reduce_axis0 fv_min (cols_upto 3 arr)) (\<lambda>mins.
     ebind (reduce_axis0 fv_max (cols_upto 3 arr)) (\<lambda>maxs.
     ebind (idx mins 0) (\<lambda>x0. ebind (idx mins 1) (\<lambda>y0. ebind (idx mins 2) (\<lambda>z0.
     ebind (idx maxs 0) (\<lambda>x1. ebind (idx maxs 1) (\<lambda>y1. ebind (idx maxs 2) (\<lambda>z1.
     Inr \<lparr>info_file = path, num_points = length (rows arr),
          bounds_min = \<lparr>vx = x0, vy = y0, vz = z0\<rparr>,
          bounds_max = \<lparr>vx = x1, vy = y1, vz = z1\<rparr>,
          has_colors = hc, has_normals = False\<rparr>))))))))"

definition point_cloud_info :: "string \<Rightarrow> source \<Rightarrow> py_error + PointCloudInfo" where
  "point_cloud_info path src = ebind (load_point_cloud src) (\<lambda>(arr, hc). describe path arr hc)"

subsection \<open>The binary buffer\<close>

text \<open>\<^verbatim>\<open>(x * 255).clip(0, 255).astype(np.uint8)\<close> of one colour channel.\<close>

definition color_byte :: "f32 \<Rightarrow> byte" where
  "color_byte w = astype_uint8 (clip_0_255 (f32_val (f32_mul255 w)))"

text \<open>
  The body of \<^verbatim>\<open>to_binary_buffer\<close> after the load: the operation \<^verbatim>\<open>encode\<close> of the
  specification. \<^verbatim>\<open>struct.pack("<IB", n, ...)\<close> raises when \<open>n\<close> does not fit 32 bits.
\<close>

definition encode :: "array2d \<Rightarrow> bool \<Rightarrow> py_error + byte list" where
  "encode arr hc =
     (let n = length (rows arr) in
      if 2 ^ 32 \<le> n then Inl StructError
      else Inr (le_bytes32 (of_nat n) @ [if hc then 1 else 0] @
                concat (map (\<lambda>r. concat (map le_bytes32 r)) (rows (cols_upto 3 arr))) @
                (if hc then concat (map (map color_byte) (rows (cols_3_6 arr))) else [])))"

definition to_binary_buffer :: "source \<Rightarrow> py_error + byte list" where
  "to_binary_buffer src = ebind (load_point_cloud src) (\<lambda>(arr, hc). encode arr hc)"

subsection \<open>The vocabulary of the properties\<close>

text \<open>
  The \<^verbatim>\<open>PointCloud\<close> of the specification, as \<^verbatim>\<open>load_point_cloud\<close> represents it: an array
  with the three position columns and, with colours, three colour columns after them.
\<close>

definition point_cloud :: "array2d \<Rightarrow> bool \<Rightarrow> bool" where
  "point_cloud arr hc = (regular arr \<and> ncols arr = (if hc then 6 else 3))"

text \<open>
  A decoder written from the wire format of the specification: offset 0 the number of
  points as an unsigned 32-bit little-endian integer, offset 4 the colour flag (0 or 1),
  offset 5 the positions (12 bytes per point), offset \<open>5 + 12 N\<close> the colours (3 bytes per
  point) when the flag is 1, and nothing else.
\<close>

record decoded =
  dec_num_points :: nat
  dec_has_colors :: bool
  dec_positions :: "f32 list list"
  dec_colors :: "byte list list"

definition decode :: "byte list \<Rightarrow> decoded option" where
  "decode buf =
     (if length buf < 5 then None
      else
        let n = unat (from_le32 (take 4 buf)); flag = buf ! 4 in
        if flag \<noteq> 0 \<and> flag \<noteq> 1 then None
        else if length buf \<noteq> 5 + 12 * n + (if flag = 1 then 3 * n else 0) then None
        else Some \<lparr>dec_num_points = n, dec_has_colors = (flag = 1),
               dec_positions =
                 map (\<lambda>i. map (\<lambda>k. from_le32 (take 4 (drop (5 + 12 * i + 4 * k) buf))) [0..<3])
                   [0..<n],
               dec_colors =
                 (if flag = 1
                  then map (\<lambda>i. map (\<lambda>k. buf ! (5 + 12 * n + 3 * i + k)) [0..<3]) [0..<n]
                  else [])\<rparr>)"

text \<open>
  The colour byte as the specification words it: \<open>round(clamp(color * 255, 0, 255))\<close>, on
  the value of the channel.
\<close>

definition spec_color_byte :: "rat \<Rightarrow> int" where
  "spec_color_byte c = round (min (max (c * 255) 0) 255)"

text \<open>
  The values of column \<open>j\<close>, and what it is for a value to be their minimum or maximum:
  it occurs in the column and no element is below (above) it.
\<close>

definition column :: "nat \<Rightarrow> array2d \<Rightarrow> fval list" where
  "column j a = map (\<lambda>r. f32_val (r ! j)) (rows a)"

definition is_min :: "fval \<Rightarrow> fval list \<Rightarrow> bool" where
  "is_min v xs = (v \<in> set xs \<and> (\<forall>x \<in> set xs. \<not> fv_less x v))"

definition is_max :: "fval \<Rightarrow> fval list \<Rightarrow> bool" where
  "is_max v xs = (v \<in> set xs \<and> (\<forall>x \<in> set xs. \<not> fv_less v x))"

text \<open>
  The colour samples of an array, the elements of \<^verbatim>\<open>data[:, 3:6]\<close>, and a sample that is a
  number between two bounds.
\<close>

definition color_samples :: "array2d \<Rightarrow> f32 list" where
  "color_samples a = concat (rows (cols_3_6 a))"

definition in_range :: "rat \<Rightarrow> rat \<Rightarrow> f32 \<Rightarrow> bool" where
  "in_range lo hi w = (case f32_val w of Finite c \<Rightarrow> lo \<le> c \<and> c \<le> hi | _ \<Rightarrow> False)"

section \<open>Sequencing of exceptions\<close>

lemma ebind_Inl: "ebind (Inl e) f = Inl e"
  by (simp add: ebind_def)

lemma ebind_Inr: "ebind (Inr x) f = f x"
  by (simp add: ebind_def)

lemma ebind_assoc_cons:
  "ebind (ebind m (\<lambda>r. Inr (xs @ r))) (\<lambda>r. Inr (x # r)) = ebind m (\<lambda>r. Inr (x # xs @ r))"
  by (cases m) (simp_all add: ebind_def)

lemma ebind_eq_Inl:
  "ebind m f = Inl e \<Longrightarrow> m = Inl e \<or> (\<exists>x. m = Inr x \<and> f x = Inl e)"
  by (cases m) (simp_all add: ebind_def)

lemma ebind_eq_Inr: "ebind m f = Inr y \<Longrightarrow> \<exists>x. m = Inr x \<and> f x = Inr y"
  by (cases m) (simp_all add: ebind_def)

lemma ebind_InrE:
  assumes "ebind m f = Inr y"
  obtains x where "m = Inr x" and "f x = Inr y"
  using assms by (cases m) (simp_all add: ebind_def)

section \<open>Properties of the COLMAP parser\<close>

subsection \<open>Evaluation\<close>

text \<open>The definitions a concrete file is evaluated with.\<close>

lemmas colmap_eval =
  qualifies_def COMMENT_match_def strip_def split_def is_space_def
  py_int_def int_unsigned_def is_digit_def digit_val_def flt_int_def py_float_def
  idx_def ebind_def

subsection \<open>images.txt: pairs of lines\<close>

lemma image_of_parts_line:
  fixes img :: "'f ColmapImage"
  assumes "image_line flt l img"
  shows "image_of_parts flt (split (strip l)) = Inr img"
proof -
  let ?t = "split (strip l)"
  from assms have len: "10 \<le> length ?t" by (simp add: image_line_def Let_def)
  have i: "\<And>k. k < 10 \<Longrightarrow> idx ?t k = Inr (?t ! k)"
    using len by (simp add: idx_def)
  have "image_of_parts flt ?t =
        Inr \<lparr>img_id = img_id img, camera_id = camera_id img, name = name img,
          rotation = \<lparr>qw = qw (rotation img), qx = qx (rotation img),
                      qy = qy (rotation img), qz = qz (rotation img)\<rparr>,
          translation = \<lparr>vx = vx (translation img), vy = vy (translation img),
                         vz = vz (translation img)\<rparr>,
          room_id = None\<rparr>"
    using assms by (simp add: image_of_parts_def i ebind_Inr py_float_def image_line_def Let_def)
  also have "\<dots> = Inr img"
    using assms by (simp add: image_line_def Let_def)
  finally show ?thesis .
qed

lemma images_loop_pairs:
  fixes pairs :: "(string \<times> string \<times> 'f ColmapImage) list"
  assumes "\<forall>(odd, even, img) \<in> set pairs. image_line flt odd img"
  shows "images_loop flt (pair_lines pairs @ rest) =
         ebind (images_loop flt rest) (\<lambda>r. Inr (pair_images pairs @ r))"
  using assms
proof (induction pairs)
  case Nil
  show ?case by (cases "images_loop flt rest") (simp_all add: pair_lines_def pair_images_def ebind_def)
next
  case (Cons p pairs)
  obtain odd even img where p: "p = (odd, even, img)" by (cases p)
  from Cons.prems p have l: "image_line flt odd img" by simp
  then have len: "\<not> length (split (strip odd)) < 10" by (simp add: image_line_def Let_def)
  from Cons.prems have "\<forall>(odd, even, img) \<in> set pairs. image_line flt odd img" by simp
  then have IH: "images_loop flt (pair_lines pairs @ rest) =
         ebind (images_loop flt rest) (\<lambda>r. Inr (pair_images pairs @ r))"
    by (rule Cons.IH)
  have "images_loop flt (pair_lines (p # pairs) @ rest) =
        images_loop flt (odd # even # (pair_lines pairs @ rest))"
    by (simp add: p pair_lines_def)
  also have "\<dots> = ebind (images_loop flt (pair_lines pairs @ rest)) (\<lambda>r. Inr (img # r))"
    using len by (simp add: Let_def image_of_parts_line [OF l] ebind_Inr)
  also have "\<dots> = ebind (images_loop flt rest) (\<lambda>r. Inr (img # pair_images pairs @ r))"
    by (simp only: IH ebind_assoc_cons)
  finally show ?case by (simp add: p pair_images_def)
qed

text \<open>
  Where the track line of every pair is a line the filter keeps (it is neither blank nor a
  comment), the pairs stay aligned: K well-formed pairs give exactly K records, in file
  order, each with the converted fields of its image line.
\<close>

lemma parse_images_txt_pairs:
  fixes pairs :: "(string \<times> string \<times> 'f ColmapImage) list"
  assumes "\<forall>(odd, even, img) \<in> set pairs. image_line flt odd img"
    and "filter qualifies f = pair_lines pairs"
  shows "parse_images_txt flt f = Inr (pair_images pairs)"
  using images_loop_pairs [OF assms(1), of "[]"] assms(2)
  by (simp add: parse_images_txt_def ebind_Inr)

lemma parse_images_txt_pairs_example:
  "parse_images_txt flt_int
     [''# Image list with two lines of data per image:'',
      ''7 1 0 0 0 0 0 0 3 frame007.jpg'', ''10 20 -1'',
      '''',
      ''8 0 1 0 0 1 2 3 3 b.jpg'', ''1 1 5''] =
   Inr [\<lparr>img_id = 7, camera_id = 3, name = ''frame007.jpg'',
          rotation = \<lparr>qw = 1, qx = 0, qy = 0, qz = 0\<rparr>,
          translation = \<lparr>vx = 0, vy = 0, vz = 0\<rparr>, room_id = None\<rparr>,
        \<lparr>img_id = 8, camera_id = 3, name = ''b.jpg'',
          rotation = \<lparr>qw = 0, qx = 1, qy = 0, qz = 0\<rparr>,
          translation = \<lparr>vx = 1, vy = 2, vz = 3\<rparr>, room_id = None\<rparr>]"
proof -
  let ?i7 = "\<lparr>img_id = 7, camera_id = 3, name = ''frame007.jpg'',
          rotation = \<lparr>qw = 1::int, qx = 0, qy = 0, qz = 0\<rparr>,
          translation = \<lparr>vx = 0::int, vy = 0, vz = 0\<rparr>, room_id = None\<rparr>"
  let ?i8 = "\<lparr>img_id = 8, camera_id = 3, name = ''b.jpg'',
          rotation = \<lparr>qw = 0::int, qx = 1, qy = 0, qz = 0\<rparr>,
          translation = \<lparr>vx = 1::int, vy = 2, vz = 3\<rparr>, room_id = None\<rparr>"
  let ?pairs = "[(''7 1 0 0 0 0 0 0 3 frame007.jpg'', ''10 20 -1'', ?i7),
                 (''8 0 1 0 0 1 2 3 3 b.jpg'', ''1 1 5'', ?i8)]"
  have h1: "\<forall>(odd, even, img) \<in> set ?pairs. image_line flt_int odd img"
    by (simp add: image_line_def colmap_eval)
  have h2: "filter qualifies
     [''# Image list with two lines of data per image:'',
      ''7 1 0 0 0 0 0 0 3 frame007.jpg'', ''10 20 -1'',
      '''',
      ''8 0 1 0 0 1 2 3 3 b.jpg'', ''1 1 5''] = pair_lines ?pairs"
    by (simp add: pair_lines_def colmap_eval)
  from parse_images_txt_pairs [OF h1 h2] show ?thesis
    by (simp add: pair_images_def)
qed

text \<open>
  Claim C6. The claim is that K well-formed pairs give K records. A pair whose track line
  is empty is well formed (COLMAP writes an empty line for an image without 2-D points,
  and the parser is documented to ignore that line), but the filter removes the blank
  line before the lines are paired, so the next image line is taken for the track line
  and skipped: the workspace below has two pairs and \<^verbatim>\<open>load_colmap_workspace\<close> returns
  one record.
\<close>

theorem load_colmap_workspace_blank_track_line:
  "load_colmap_workspace flt_int
     \<lparr>cameras_txt = None,
      images_txt = Some [''7 1 0 0 0 0 0 0 3 frame007.jpg'', [CHR 0x0A],
                         ''8 0 1 0 0 1 2 3 3 b.jpg'', ''1 1 5''],
      points3D_txt = None\<rparr> =
   Inr \<lparr>cameras = None,
        images = Some [\<lparr>img_id = 7, camera_id = 3, name = ''frame007.jpg'',
                         rotation = \<lparr>qw = 1, qx = 0, qy = 0, qz = 0\<rparr>,
                         translation = \<lparr>vx = 0, vy = 0, vz = 0\<rparr>, room_id = None\<rparr>],
        points = None\<rparr>"
  by (simp add: load_colmap_workspace_def if_exists_def parse_images_txt_def
      image_of_parts_def colmap_eval)

text \<open>
  Claim C7. An odd line with fewer than 10 tokens emits no record and raises nothing; the
  loop goes on with the very next line as an odd line (one line is consumed, the line
  after it is not skipped). Here the short line \<open>l\<close> follows any number of complete pairs,
  and the result is the records of those pairs followed by whatever the rest of the file
  parses to.
\<close>

theorem images_short_line_skipped:
  fixes pairs :: "(string \<times> string \<times> 'f ColmapImage) list"
  assumes "\<forall>(odd, even, img) \<in> set pairs. image_line flt odd img"
    and "filter qualifies before = pair_lines pairs"
    and "qualifies l" and "length (split (strip l)) < 10"
  shows "parse_images_txt flt (before @ l # rest) =
         ebind (parse_images_txt flt rest) (\<lambda>r. Inr (pair_images pairs @ r))"
  using images_loop_pairs [OF assms(1), of "l # filter qualifies rest"] assms(2-4)
  by (simp add: parse_images_txt_def)

theorem images_short_line_skipped_witness:
  "parse_images_txt flt_int
     [''9 1 0 0'', ''7 1 0 0 0 0 0 0 3 frame007.jpg'', ''10 20 -1''] =
   Inr [\<lparr>img_id = 7, camera_id = 3, name = ''frame007.jpg'',
          rotation = \<lparr>qw = 1, qx = 0, qy = 0, qz = 0\<rparr>,
          translation = \<lparr>vx = 0, vy = 0, vz = 0\<rparr>, room_id = None\<rparr>]"
proof -
  have h1: "\<forall>(odd, even, img) \<in> set ([] :: (string \<times> string \<times> int ColmapImage) list).
              image_line flt_int odd img" by simp
  have h2: "filter qualifies [] = pair_lines ([] :: (string \<times> string \<times> int ColmapImage) list)"
    by (simp add: pair_lines_def)
  have h3: "qualifies ''9 1 0 0''" by (simp add: colmap_eval)
  have h4: "length (split (strip ''9 1 0 0'')) < 10" by (simp add: colmap_eval)
  have r: "parse_images_txt flt_int [''7 1 0 0 0 0 0 0 3 frame007.jpg'', ''10 20 -1''] =
     Inr [\<lparr>img_id = 7, camera_id = 3, name = ''frame007.jpg'',
          rotation = \<lparr>qw = 1, qx = 0, qy = 0, qz = 0\<rparr>,
          translation = \<lparr>vx = 0, vy = 0, vz = 0\<rparr>, room_id = None\<rparr>]"
    by (simp add: parse_images_txt_def image_of_parts_def colmap_eval)
  from images_short_line_skipped [OF h1 h2 h3 h4,
      of "[''7 1 0 0 0 0 0 0 3 frame007.jpg'', ''10 20 -1'']"]
  show ?thesis by (simp add: r pair_images_def ebind_def)
qed

subsection \<open>cameras.txt: indexing\<close>

lemma py_int_cases: "py_int tok = Inl (IntValueError tok) \<or> (\<exists>i. py_int tok = Inr i)"
  by (auto simp: py_int_def split: option.splits list.splits)

lemma py_float_cases:
  "py_float flt tok = Inl (FloatValueError tok) \<or> (\<exists>x. py_float flt tok = Inr x)"
  by (auto simp: py_float_def split: option.splits)

lemma emap_py_float_cases:
  "(\<exists>tok \<in> set ps. flt tok = None \<and> emap (py_float flt) ps = Inl (FloatValueError tok)) \<or>
   (\<exists>xs. emap (py_float flt) ps = Inr xs \<and> (\<forall>p \<in> set ps. flt p \<noteq> None))"
proof (induction ps)
  case Nil
  show ?case by simp
next
  case (Cons p ps)
  show ?case
  proof (cases "flt p")
    case None
    then show ?thesis by (simp add: py_float_def ebind_def)
  next
    case (Some x)
    with Cons.IH show ?thesis by (auto simp: py_float_def ebind_def)
  qed
qed

lemma idx_int_cases:
  "i < length t \<Longrightarrow>
   (isl (py_int (t ! i)) \<and> ebind (idx t i) py_int = Inl (IntValueError (t ! i))) \<or>
   (\<exists>v. \<not> isl (py_int (t ! i)) \<and> ebind (idx t i) py_int = Inr v)"
  using py_int_cases [of "t ! i"] by (auto simp: idx_def ebind_def)

lemma idx_float_cases:
  "i < length t \<Longrightarrow>
   (flt (t ! i) = None \<and> ebind (idx t i) (py_float flt) = Inl (FloatValueError (t ! i))) \<or>
   (\<exists>v. flt (t ! i) \<noteq> None \<and> ebind (idx t i) (py_float flt) = Inr v)"
  by (auto simp: idx_def ebind_def py_float_def split: option.splits)

lemma camera_of_parts_cases:
  assumes "4 \<le> length t"
  shows "(\<not> camera_tokens_numeric flt t \<and>
          (\<exists>tok. camera_of_parts flt t = Inl (IntValueError tok) \<or>
                  camera_of_parts flt t = Inl (FloatValueError tok))) \<or>
         (camera_tokens_numeric flt t \<and> (\<exists>c. camera_of_parts flt t = Inr c))"
proof -
  from assms have l: "0 < length t" "1 < length t" "2 < length t" "3 < length t" by auto
  have i1: "idx t 1 = Inr (t ! 1)" using l by (simp add: idx_def)
  show ?thesis
    using idx_int_cases [OF l(1)] idx_int_cases [OF l(3)] idx_int_cases [OF l(4)]
      emap_py_float_cases [of "drop 4 t" flt]
    unfolding camera_of_parts_def camera_tokens_numeric_def i1
    by (elim disjE exE conjE bexE) (simp_all add: ebind_Inl ebind_Inr, blast+)
qed

lemma camera_of_parts_short:
  assumes "length t < 4"
  shows "camera_of_parts flt t = Inl IndexError \<or>
         camera_of_parts flt t = Inl (IntValueError (t ! 0)) \<or>
         camera_of_parts flt t = Inl (IntValueError (t ! 2))"
proof -
  have i3: "idx t 3 = Inl IndexError" using assms by (simp add: idx_def)
  show ?thesis
  proof (cases "0 < length t")
    case False
    then show ?thesis by (simp add: camera_of_parts_def idx_def ebind_def)
  next
    case l0: True
    then have i0: "idx t 0 = Inr (t ! 0)" by (simp add: idx_def)
    from py_int_cases [of "t ! 0"] show ?thesis
    proof (elim disjE exE)
      assume "py_int (t ! 0) = Inl (IntValueError (t ! 0))"
      then show ?thesis by (simp add: camera_of_parts_def i0 ebind_def)
    next
      fix i assume p0: "py_int (t ! 0) = Inr i"
      show ?thesis
      proof (cases "2 < length t")
        case False
        then show ?thesis by (simp add: camera_of_parts_def i0 p0 idx_def ebind_def)
      next
        case True
        then have i12: "idx t (Suc 0) = Inr (t ! 1)" "idx t 2 = Inr (t ! 2)" by (simp_all add: idx_def)
        from py_int_cases [of "t ! 2"] show ?thesis
          by (elim disjE exE) (simp_all add: camera_of_parts_def i0 p0 i12 i3 ebind_def)
      qed
    qed
  qed
qed

lemma parse_cameras_txt_qualifies:
  "parse_cameras_txt flt (line # f) =
     (if qualifies line
      then ebind (camera_of_parts flt (split (strip line))) (\<lambda>cam.
           ebind (parse_cameras_txt flt f) (\<lambda>cameras. Inr (cam # cameras)))
      else parse_cameras_txt flt f)"
  by (simp add: qualifies_def)

lemma parse_cameras_txt_error:
  "parse_cameras_txt flt f = Inl e \<Longrightarrow>
   \<exists>l \<in> set f. qualifies l \<and> camera_of_parts flt (split (strip l)) = Inl e"
proof (induction f)
  case Nil
  then show ?case by simp
next
  case (Cons line f)
  show ?case
  proof (cases "qualifies line")
    case False
    with Cons show ?thesis by (simp add: parse_cameras_txt_qualifies del: parse_cameras_txt.simps)
  next
    case True
    show ?thesis
    proof (cases "camera_of_parts flt (split (strip line))")
      case (Inl e')
      with True Cons.prems show ?thesis
        by (simp add: parse_cameras_txt_qualifies ebind_Inl del: parse_cameras_txt.simps)
    next
      case (Inr c)
      with True Cons.prems have "parse_cameras_txt flt f = Inl e"
        by (cases "parse_cameras_txt flt f")
           (simp_all add: parse_cameras_txt_qualifies ebind_def del: parse_cameras_txt.simps)
      with Cons.IH show ?thesis by auto
    qed
  qed
qed

lemma parse_cameras_txt_fails:
  "l \<in> set f \<Longrightarrow> qualifies l \<Longrightarrow> isl (camera_of_parts flt (split (strip l))) \<Longrightarrow>
   isl (parse_cameras_txt flt f)"
proof (induction f)
  case Nil
  then show ?case by simp
next
  case (Cons line f)
  show ?case
  proof (cases "qualifies line")
    case False
    with Cons show ?thesis
      by (auto simp: parse_cameras_txt_qualifies simp del: parse_cameras_txt.simps)
  next
    case True
    show ?thesis
    proof (cases "camera_of_parts flt (split (strip line))")
      case (Inl e')
      with True show ?thesis
        by (simp add: parse_cameras_txt_qualifies ebind_Inl del: parse_cameras_txt.simps)
    next
      case (Inr c)
      with Cons.prems have "l \<in> set f" by auto
      with Cons have "isl (parse_cameras_txt flt f)" by simp
      with True Inr show ?thesis
        by (cases "parse_cameras_txt flt f")
           (simp_all add: parse_cameras_txt_qualifies ebind_def del: parse_cameras_txt.simps)
    qed
  qed
qed

lemma parse_cameras_txt_succeeds:
  "\<forall>l \<in> set f. qualifies l \<longrightarrow> \<not> isl (camera_of_parts flt (split (strip l))) \<Longrightarrow>
   \<exists>cs. parse_cameras_txt flt f = Inr cs \<and> length cs = length (filter qualifies f)"
proof (induction f)
  case Nil
  then show ?case by simp
next
  case (Cons line f)
  then obtain cs where cs: "parse_cameras_txt flt f = Inr cs" "length cs = length (filter qualifies f)"
    by auto
  show ?case
  proof (cases "qualifies line")
    case False
    with cs show ?thesis
      by (simp add: parse_cameras_txt_qualifies del: parse_cameras_txt.simps)
  next
    case True
    with Cons.prems obtain c where "camera_of_parts flt (split (strip line)) = Inr c"
      by (cases "camera_of_parts flt (split (strip line))") auto
    with True cs show ?thesis
      by (simp add: parse_cameras_txt_qualifies ebind_Inr del: parse_cameras_txt.simps)
  qed
qed

text \<open>
  Claim C10. \<^verbatim>\<open>parse_cameras_txt\<close> indexes the first four tokens of every line it keeps,
  with no length check. If every kept line has at least 4 tokens, no index is out of
  range: the parse never raises \<open>IndexError\<close>, and it returns one camera per kept line
  when the numeric tokens convert. A kept line with fewer than 4 tokens is never skipped:
  the parse fails; on the file with the single line \<^verbatim>\<open>1 PINHOLE 640\<close> the failure is the
  \<open>IndexError\<close> itself, not a conversion error.
\<close>

theorem parse_cameras_txt_indexing:
  "((\<forall>l \<in> set f. qualifies l \<longrightarrow> 4 \<le> length (split (strip l))) \<longrightarrow>
      parse_cameras_txt flt f \<noteq> Inl IndexError \<and>
      ((\<forall>l \<in> set f. qualifies l \<longrightarrow> camera_tokens_numeric flt (split (strip l))) \<longrightarrow>
         (\<exists>cs. parse_cameras_txt flt f = Inr cs \<and> length cs = length (filter qualifies f)))) \<and>
   ((\<exists>l \<in> set f. qualifies l \<and> length (split (strip l)) < 4) \<longrightarrow>
      isl (parse_cameras_txt flt f)) \<and>
   parse_cameras_txt flt [''1 PINHOLE 640''] = Inl IndexError"
proof (intro conjI impI)
  assume len: "\<forall>l \<in> set f. qualifies l \<longrightarrow> 4 \<le> length (split (strip l))"
  show "parse_cameras_txt flt f \<noteq> Inl IndexError"
  proof
    assume "parse_cameras_txt flt f = Inl IndexError"
    then obtain l where l: "l \<in> set f" "qualifies l"
      "camera_of_parts flt (split (strip l)) = Inl IndexError"
      using parse_cameras_txt_error by blast
    with len have "4 \<le> length (split (strip l))" by simp
    from camera_of_parts_cases [OF this, of flt] l(3) show False by auto
  qed
  assume num: "\<forall>l \<in> set f. qualifies l \<longrightarrow> camera_tokens_numeric flt (split (strip l))"
  have "\<forall>l \<in> set f. qualifies l \<longrightarrow> \<not> isl (camera_of_parts flt (split (strip l)))"
  proof (intro ballI impI)
    fix l assume l: "l \<in> set f" "qualifies l"
    with len have "4 \<le> length (split (strip l))" by simp
    from camera_of_parts_cases [OF this, of flt] num l
    show "\<not> isl (camera_of_parts flt (split (strip l)))" by auto
  qed
  then show "\<exists>cs. parse_cameras_txt flt f = Inr cs \<and> length cs = length (filter qualifies f)"
    by (rule parse_cameras_txt_succeeds)
next
  assume "\<exists>l \<in> set f. qualifies l \<and> length (split (strip l)) < 4"
  then obtain l where l: "l \<in> set f" "qualifies l" "length (split (strip l)) < 4" by blast
  from camera_of_parts_short [OF l(3), of flt]
  have "isl (camera_of_parts flt (split (strip l)))" by auto
  with l(1,2) show "isl (parse_cameras_txt flt f)" by (rule parse_cameras_txt_fails)
next
  show "parse_cameras_txt flt [''1 PINHOLE 640''] = Inl IndexError"
    by (simp add: COMMENT_match_def is_space_def strip_def split_def camera_of_parts_def
        ebind_def idx_def py_int_def int_unsigned_def is_digit_def digit_val_def)
qed

theorem parse_cameras_txt_indexing_witness:
  "parse_cameras_txt flt_int [''# Camera list'', ''3 PINHOLE 640 480 500 500 320 240''] \<noteq> Inl IndexError \<and>
   (\<exists>cs. parse_cameras_txt flt_int [''# Camera list'', ''3 PINHOLE 640 480 500 500 320 240''] = Inr cs \<and> length cs = 1) \<and>
   isl (parse_cameras_txt flt_int [''3 PINHOLE 640 480 500 500 320 240'', ''4 PINHOLE'']) \<and>
   parse_cameras_txt flt_int [''1 PINHOLE 640''] = Inl IndexError"
proof -
  let ?f = "[''# Camera list'', ''3 PINHOLE 640 480 500 500 320 240'']"
  let ?g = "[''3 PINHOLE 640 480 500 500 320 240'', ''4 PINHOLE'']"
  have s: "split (strip ''3 PINHOLE 640 480 500 500 320 240'') =
           [''3'', ''PINHOLE'', ''640'', ''480'', ''500'', ''500'', ''320'', ''240'']"
    by (simp add: strip_def split_def is_space_def)
  have q: "qualifies ''3 PINHOLE 640 480 500 500 320 240''" "\<not> qualifies ''# Camera list''"
    by (simp_all add: qualifies_def COMMENT_match_def strip_def is_space_def)
  have h1: "\<forall>l \<in> set ?f. qualifies l \<longrightarrow> 4 \<le> length (split (strip l))"
    using q by (simp add: s)
  have h2: "\<forall>l \<in> set ?f. qualifies l \<longrightarrow> camera_tokens_numeric flt_int (split (strip l))"
    using q by (simp add: s camera_tokens_numeric_def flt_int_def py_int_def int_unsigned_def
        is_digit_def digit_val_def)
  have h3: "\<exists>l \<in> set ?g. qualifies l \<and> length (split (strip l)) < 4"
    by (simp add: qualifies_def COMMENT_match_def strip_def split_def is_space_def)
  have n: "length (filter qualifies ?f) = 1" using q by simp
  from parse_cameras_txt_indexing [of ?f flt_int] h1 h2 n
  have a: "parse_cameras_txt flt_int ?f \<noteq> Inl IndexError"
    "\<exists>cs. parse_cameras_txt flt_int ?f = Inr cs \<and> length cs = 1" by auto
  from parse_cameras_txt_indexing [of ?g flt_int] h3
  have b: "isl (parse_cameras_txt flt_int ?g)" "parse_cameras_txt flt_int [''1 PINHOLE 640''] = Inl IndexError"
    by blast+
  from a b show ?thesis by blast
qed

subsection \<open>Conversion failures\<close>

lemma ebind_errorE:
  assumes "ebind m f = Inl e"
    and "\<And>e'. m = Inl e' \<Longrightarrow> P e'"
    and "\<And>x e'. f x = Inl e' \<Longrightarrow> P e'"
  shows "P e"
  using assms by (cases m) (simp_all add: ebind_def)

lemma idx_line_error: "idx t i = Inl e \<Longrightarrow> line_error flt t e"
  by (simp add: idx_def line_error_def split: if_splits)

lemma idx_int_line_error: "ebind (idx t i) py_int = Inl e \<Longrightarrow> line_error flt t e"
proof (cases "i < length t")
  case True
  assume "ebind (idx t i) py_int = Inl e"
  with True have "py_int (t ! i) = Inl e" by (simp add: idx_def ebind_def)
  with py_int_cases [of "t ! i"] have "e = IntValueError (t ! i)" "isl (py_int (t ! i))" by auto
  with True show ?thesis unfolding line_error_def by (metis nth_mem)
next
  case False
  assume "ebind (idx t i) py_int = Inl e"
  with False show ?thesis by (simp add: idx_def ebind_def line_error_def)
qed

lemma idx_float_line_error: "ebind (idx t i) (py_float flt) = Inl e \<Longrightarrow> line_error flt t e"
proof (cases "i < length t")
  case True
  assume "ebind (idx t i) (py_float flt) = Inl e"
  with True have "py_float flt (t ! i) = Inl e" by (simp add: idx_def ebind_def)
  then have "e = FloatValueError (t ! i)" "flt (t ! i) = None"
    by (auto simp: py_float_def split: option.splits)
  with True show ?thesis unfolding line_error_def by (metis nth_mem)
next
  case False
  assume "ebind (idx t i) (py_float flt) = Inl e"
  with False show ?thesis by (simp add: idx_def ebind_def line_error_def)
qed

lemma emap_float_line_error:
  assumes "emap (py_float flt) (drop k t) = Inl e"
  shows "line_error flt t e"
proof -
  from emap_py_float_cases [of "drop k t" flt] assms obtain tok where
    "tok \<in> set (drop k t)" "flt tok = None" "e = FloatValueError tok" by auto
  moreover then have "tok \<in> set t" by (meson in_set_dropD)
  ultimately show ?thesis unfolding line_error_def by blast
qed

lemma camera_of_parts_line_error: "camera_of_parts flt t = Inl e \<Longrightarrow> line_error flt t e"
  unfolding camera_of_parts_def
  by ((erule ebind_errorE,
       (erule idx_int_line_error | erule idx_line_error | erule emap_float_line_error))+) simp

lemma image_of_parts_line_error: "image_of_parts flt t = Inl e \<Longrightarrow> line_error flt t e"
  unfolding image_of_parts_def
  by ((erule ebind_errorE,
       (erule idx_int_line_error | erule idx_float_line_error | erule idx_line_error))+) simp

lemma point_of_parts_line_error: "point_of_parts flt t = Inl e \<Longrightarrow> line_error flt t e"
  unfolding point_of_parts_def
  by ((erule ebind_errorE,
       (erule idx_int_line_error | erule idx_float_line_error | erule idx_line_error))+) simp

lemma idx_int_Inr: "ebind (idx t i) py_int = Inr v \<Longrightarrow> \<not> isl (py_int (t ! i))"
  by (auto simp: idx_def ebind_def split: if_splits)

lemma idx_float_Inr: "ebind (idx t i) (py_float flt) = Inr v \<Longrightarrow> flt (t ! i) \<noteq> None"
  by (auto simp: idx_def ebind_def py_float_def split: if_splits option.splits)

lemma idx_Inr: "idx t i = Inr x \<Longrightarrow> x = t ! i"
  by (simp add: idx_def split: if_splits)

lemma py_float_Inr: "py_float flt tok = Inr x \<Longrightarrow> flt tok \<noteq> None"
  by (simp add: py_float_def split: option.splits)

lemma point_of_parts_Inr:
  assumes "point_of_parts flt t = Inr p"
  shows "point_tokens_numeric flt t"
  using assms unfolding point_of_parts_def point_tokens_numeric_def
  by (elim ebind_InrE) (auto dest!: idx_Inr py_float_Inr)

lemma image_of_parts_Inr:
  assumes "image_of_parts flt t = Inr p"
  shows "image_tokens_numeric flt t"
  using assms unfolding image_of_parts_def image_tokens_numeric_def
  by (elim ebind_InrE) (auto dest!: idx_Inr py_float_Inr)

lemma parse_points3d_txt_fails:
  "l \<in> set f \<Longrightarrow> qualifies l \<Longrightarrow> isl (point_of_parts flt (split (strip l))) \<Longrightarrow>
   isl (parse_points3d_txt flt f)"
proof (induction f)
  case Nil
  then show ?case by simp
next
  case (Cons line f)
  show ?case
  proof (cases "qualifies line")
    case False
    with Cons show ?thesis by (auto simp: qualifies_def)
  next
    case True
    show ?thesis
    proof (cases "point_of_parts flt (split (strip line))")
      case (Inl e')
      with True show ?thesis by (simp add: qualifies_def ebind_Inl)
    next
      case (Inr c)
      with Cons.prems have "l \<in> set f" by auto
      with Cons have "isl (parse_points3d_txt flt f)" by simp
      with True Inr show ?thesis
        by (cases "parse_points3d_txt flt f") (simp_all add: qualifies_def ebind_def)
    qed
  qed
qed

lemma isl_if_exists: "isl (parse f) \<Longrightarrow> isl (if_exists (Some f) parse)"
  by (cases "parse f") (simp_all add: if_exists_def ebind_def)

lemma load_colmap_workspace_fails:
  assumes "isl (if_exists (cameras_txt ws) (parse_cameras_txt flt)) \<or>
           isl (if_exists (images_txt ws) (parse_images_txt flt)) \<or>
           isl (if_exists (points3D_txt ws) (parse_points3d_txt flt))"
  shows "isl (load_colmap_workspace flt ws)"
  using assms unfolding load_colmap_workspace_def
  by (cases "if_exists (cameras_txt ws) (parse_cameras_txt flt)";
      cases "if_exists (images_txt ws) (parse_images_txt flt)";
      cases "if_exists (points3D_txt ws) (parse_points3d_txt flt)")
     (simp_all add: ebind_def)

lemma images_loop_error:
  "images_loop flt ls = Inl e \<Longrightarrow>
   \<exists>l \<in> set ls. image_of_parts flt (split (strip l)) = Inl e"
proof (induction flt ls arbitrary: e rule: images_loop.induct)
  case (1 flt)
  then show ?case by simp
next
  case (2 flt l ls)
  show ?case
  proof (cases "length (split (strip l)) < 10")
    case True
    with "2.prems" have "images_loop flt ls = Inl e" by simp
    with "2.IH"(1) [OF refl True] show ?thesis by auto
  next
    case False
    with "2.prems" have
      "ebind (image_of_parts flt (split (strip l))) (\<lambda>img.
         ebind (images_loop flt (drop 1 ls)) (\<lambda>images. Inr (img # images))) = Inl e"
      by (simp add: Let_def)
    then show ?thesis
    proof (rule ebind_errorE)
      fix e' assume "image_of_parts flt (split (strip l)) = Inl e'"
      then show "\<exists>l \<in> set (l # ls). image_of_parts flt (split (strip l)) = Inl e'" by simp
    next
      fix img e'
      assume "ebind (images_loop flt (drop 1 ls)) (\<lambda>images. Inr (img # images)) = Inl e'"
      then have "images_loop flt (drop 1 ls) = Inl e'"
        by (cases "images_loop flt (drop 1 ls)") (simp_all add: ebind_def)
      with False have "\<exists>l \<in> set (drop 1 ls). image_of_parts flt (split (strip l)) = Inl e'"
        by (intro "2.IH"(2) [OF refl]) simp_all
      then show "\<exists>l \<in> set (l # ls). image_of_parts flt (split (strip l)) = Inl e'"
        by (auto dest: in_set_dropD)
    qed
  qed
qed

lemma images_loop_fails:
  "l \<in> set (image_lines ls) \<Longrightarrow> isl (image_of_parts flt (split (strip l))) \<Longrightarrow>
   isl (images_loop flt ls)"
proof (induction flt ls rule: images_loop.induct)
  case (1 flt)
  then show ?case by simp
next
  case (2 flt l' ls)
  show ?case
  proof (cases "length (split (strip l')) < 10")
    case True
    with "2.prems" have "l \<in> set (image_lines ls)" by simp
    with "2.IH"(1) [OF refl True] "2.prems"(2) True show ?thesis by simp
  next
    case False
    show ?thesis
    proof (cases "image_of_parts flt (split (strip l'))")
      case (Inl e)
      with False show ?thesis by (simp add: Let_def ebind_Inl)
    next
      case (Inr img)
      with "2.prems" False have "l \<in> set (image_lines (drop 1 ls))" by auto
      with "2.IH"(2) [OF refl False] "2.prems"(2)
      have "isl (images_loop flt (drop 1 ls))" by simp
      with False Inr show ?thesis
        by (cases "images_loop flt (drop 1 ls)") (simp_all add: Let_def ebind_def)
    qed
  qed
qed

lemma parse_points3d_txt_error:
  "parse_points3d_txt flt f = Inl e \<Longrightarrow>
   \<exists>l \<in> set f. qualifies l \<and> point_of_parts flt (split (strip l)) = Inl e"
proof (induction f arbitrary: e)
  case Nil
  then show ?case by simp
next
  case (Cons line f)
  show ?case
  proof (cases "COMMENT_match line \<or> strip line = []")
    case True
    with Cons show ?thesis by auto
  next
    case False
    with Cons.prems have
      "ebind (point_of_parts flt (split (strip line))) (\<lambda>p.
         ebind (parse_points3d_txt flt f) (\<lambda>points. Inr (p # points))) = Inl e"
      by simp
    then show ?thesis
    proof (rule ebind_errorE)
      fix e' assume "point_of_parts flt (split (strip line)) = Inl e'"
      with False show "\<exists>l \<in> set (line # f). qualifies l \<and>
          point_of_parts flt (split (strip l)) = Inl e'"
        by (auto simp: qualifies_def)
    next
      fix p e'
      assume "ebind (parse_points3d_txt flt f) (\<lambda>points. Inr (p # points)) = Inl e'"
      then have "parse_points3d_txt flt f = Inl e'"
        by (cases "parse_points3d_txt flt f") (simp_all add: ebind_def)
      from Cons.IH [OF this]
      show "\<exists>l \<in> set (line # f). qualifies l \<and> point_of_parts flt (split (strip l)) = Inl e'"
        by auto
    qed
  qed
qed

lemma parse_cameras_txt_filter:
  "parse_cameras_txt flt (filter qualifies f) = parse_cameras_txt flt f"
  by (induction f) (simp_all add: qualifies_def)

lemma parse_points3d_txt_filter:
  "parse_points3d_txt flt (filter qualifies f) = parse_points3d_txt flt f"
  by (induction f) (simp_all add: qualifies_def)

lemma parse_images_txt_filter:
  "parse_images_txt flt (filter qualifies f) = parse_images_txt flt f"
  by (simp add: parse_images_txt_def)

lemma load_colmap_workspace_kept_lines:
  "load_colmap_workspace flt (kept_lines ws) = load_colmap_workspace flt ws"
  by (cases "cameras_txt ws"; cases "images_txt ws"; cases "points3D_txt ws")
     (simp_all add: load_colmap_workspace_def kept_lines_def if_exists_def
        parse_cameras_txt_filter parse_points3d_txt_filter parse_images_txt_filter)

lemma if_exists_error:
  assumes "if_exists fl parse = Inl e"
  obtains f where "fl = Some f" and "parse f = Inl e"
  using assms by (cases fl; cases "parse (the fl)") (auto simp: if_exists_def ebind_def)

lemma load_colmap_workspace_error:
  assumes "load_colmap_workspace flt ws = Inl e"
  shows "\<exists>l \<in> set (workspace_lines ws). qualifies l \<and> line_error flt (split (strip l)) e"
proof -
  from assms consider
    "if_exists (cameras_txt ws) (parse_cameras_txt flt) = Inl e"
    | "if_exists (images_txt ws) (parse_images_txt flt) = Inl e"
    | "if_exists (points3D_txt ws) (parse_points3d_txt flt) = Inl e"
    unfolding load_colmap_workspace_def by (auto dest!: ebind_eq_Inl)
  then show ?thesis
  proof cases
    case 1
    then obtain f where f: "cameras_txt ws = Some f" "parse_cameras_txt flt f = Inl e"
      by (rule if_exists_error)
    from parse_cameras_txt_error [OF f(2)] obtain l where
      "l \<in> set f" "qualifies l" "camera_of_parts flt (split (strip l)) = Inl e" by blast
    with f(1) show ?thesis
      by (auto simp: workspace_lines_def dest: camera_of_parts_line_error)
  next
    case 2
    then obtain f where f: "images_txt ws = Some f" "parse_images_txt flt f = Inl e"
      by (rule if_exists_error)
    from images_loop_error [of flt "filter qualifies f" e] f(2) obtain l where
      "l \<in> set f" "qualifies l" "image_of_parts flt (split (strip l)) = Inl e"
      by (auto simp: parse_images_txt_def)
    with f(1) show ?thesis
      by (auto simp: workspace_lines_def dest: image_of_parts_line_error)
  next
    case 3
    then obtain f where f: "points3D_txt ws = Some f" "parse_points3d_txt flt f = Inl e"
      by (rule if_exists_error)
    from parse_points3d_txt_error [OF f(2)] obtain l where
      "l \<in> set f" "qualifies l" "point_of_parts flt (split (strip l)) = Inl e" by blast
    with f(1) show ?thesis
      by (auto simp: workspace_lines_def dest: point_of_parts_line_error)
  qed
qed




section \<open>Properties of the float32 model\<close>

subsection \<open>Powers of two, bit lengths, rounding\<close>

lemma pow2_powi: "pow2 k = 2 powi k"
  by (simp add: pow2_def power_int_def power_inverse field_simps)

lemma pow2_pos [simp]: "0 < pow2 k"
  by (simp add: pow2_powi)

lemma pow2_add: "pow2 (a + b) = pow2 a * pow2 b"
  by (simp add: pow2_powi power_int_add)

lemma pow2_Suc: "pow2 (k + 1) = 2 * pow2 k"
proof -
  have "pow2 1 = 2" by (simp add: pow2_def)
  then show ?thesis by (simp add: pow2_add)
qed

lemma pow2_nat: "pow2 (int n) = 2 ^ n"
  by (simp add: pow2_def)

lemma pow2_numeral: "pow2 (numeral k) = 2 ^ numeral k"
  and pow2_neg_numeral: "pow2 (- numeral k) = 1 / 2 ^ numeral k"
  and pow2_0: "pow2 0 = 1"
  by (simp_all add: pow2_def)

lemma pow2_neg: "pow2 (- k) = 1 / pow2 k"
  by (simp add: pow2_powi power_int_minus field_simps)

lemma pow2_mono: "a \<le> b \<Longrightarrow> pow2 a \<le> pow2 b"
  by (simp add: pow2_powi power_int_increasing)

lemma pow2_strict_mono: "a < b \<Longrightarrow> pow2 a < pow2 b"
  by (simp add: pow2_powi power_int_strict_increasing)

lemma bit_length_bounds:
  "0 < n \<Longrightarrow> 2 ^ (bit_length n - 1) \<le> n \<and> n < 2 ^ bit_length n"
proof (induction n rule: bit_length.induct)
  case (1 n)
  show ?case
  proof (cases "n div 2 = 0")
    case True
    with "1.prems" have n: "n = Suc 0" by presburger
    have "bit_length (Suc 0) = Suc 0"
      by (simp add: bit_length.simps [of "Suc 0"] bit_length.simps [of 0])
    with n show ?thesis by simp
  next
    case False
    with "1.prems" have IH: "2 ^ (bit_length (n div 2) - 1) \<le> n div 2"
      "n div 2 < 2 ^ bit_length (n div 2)"
      using "1.IH" by simp_all
    have pos: "0 < bit_length (n div 2)"
      using False by (simp add: bit_length.simps [of "n div 2"])
    have bl: "bit_length n = Suc (bit_length (n div 2))"
      using "1.prems" by (simp add: bit_length.simps [of n])
    have "2 ^ (bit_length n - 1) = 2 * 2 ^ (bit_length (n div 2) - 1)"
      using pos bl by (cases "bit_length (n div 2)") simp_all
    also have "\<dots> \<le> 2 * (n div 2)" using IH(1) by simp
    also have "\<dots> \<le> n" by simp
    finally have lo: "2 ^ (bit_length n - 1) \<le> n" .
    have "n < 2 * (n div 2) + 2" by presburger
    also have "\<dots> \<le> 2 * 2 ^ bit_length (n div 2)" using IH(2) by simp
    finally have "n < 2 ^ bit_length n" by (simp add: bl)
    with lo show ?thesis by simp
  qed
qed

lemma bit_length_pos: "0 < n \<Longrightarrow> 0 < bit_length n"
  by (simp add: bit_length.simps [of n])

lemma bit_length_0: "bit_length 0 = 0"
  by (simp add: bit_length.simps [of 0])

lemma ilog2_bounds:
  assumes "0 < r"
  shows "pow2 (ilog2 r) \<le> r \<and> r < pow2 (ilog2 r + 1)"
proof (cases "1 \<le> r")
  case True
  let ?n = "nat \<lfloor>r\<rfloor>"
  let ?L = "bit_length ?n"
  from True have n: "0 < ?n" by simp
  note b = bit_length_bounds [OF n]
  from b have up: "?n + 1 \<le> 2 ^ ?L" by linarith
  have L: "0 < ?L" using n by (rule bit_length_pos)
  have il: "ilog2 r = int ?L - 1" using True by (simp add: ilog2_def)
  have "int ?L - 1 = int (?L - 1)" using L by simp
  then have "pow2 (ilog2 r) = 2 ^ (?L - 1)" by (simp only: il pow2_nat)
  also have "\<dots> = of_nat (2 ^ (?L - 1))" by simp
  also have "\<dots> \<le> of_nat ?n" using b by (simp only: of_nat_le_iff)
  also have "\<dots> = of_int \<lfloor>r\<rfloor>" using True by simp
  also have "\<dots> \<le> r" by simp
  finally have lo: "pow2 (ilog2 r) \<le> r" .
  have "r < of_int (\<lfloor>r\<rfloor> + 1)" by linarith
  also have "\<dots> = of_nat (?n + 1)" using True by simp
  also have "\<dots> \<le> of_nat (2 ^ ?L)" using up by (simp only: of_nat_le_iff)
  also have "\<dots> = pow2 (int ?L)" by (simp add: pow2_nat)
  finally have "r < pow2 (ilog2 r + 1)" by (simp add: il)
  with lo show ?thesis by simp
next
  case False
  let ?x = "1 / r"
  let ?n = "nat (\<lceil>?x\<rceil> - 1)"
  let ?L = "bit_length ?n"
  from False assms have x1: "1 < ?x" by (simp add: field_simps)
  then have c2: "2 \<le> \<lceil>?x\<rceil>" by linarith
  then have n: "0 < ?n" by linarith
  note b = bit_length_bounds [OF n]
  from b have up: "?n + 1 \<le> 2 ^ ?L" by linarith
  have L: "0 < ?L" using n by (rule bit_length_pos)
  have il: "ilog2 r = - int ?L" using False by (simp add: ilog2_def)
  have "0 \<le> \<lceil>?x\<rceil> - 1" using c2 by linarith
  then have "(of_nat ?n :: rat) = of_int (\<lceil>?x\<rceil> - 1)" by (rule of_nat_nat)
  then have nn: "(of_nat ?n :: rat) = of_int \<lceil>?x\<rceil> - 1" by simp
  have "?x \<le> of_int \<lceil>?x\<rceil>" by simp
  also have "\<dots> = of_nat (?n + 1)" using nn by simp
  also have "\<dots> \<le> of_nat (2 ^ ?L)" using up by (simp only: of_nat_le_iff)
  also have "\<dots> = 2 ^ ?L" by simp
  finally have "1 / 2 ^ ?L \<le> r" using assms by (simp add: field_simps)
  then have lo: "pow2 (ilog2 r) \<le> r"
    by (simp add: il pow2_neg pow2_nat)
  have "(2 :: rat) ^ (?L - 1) = of_nat (2 ^ (?L - 1))" by simp
  also have "\<dots> \<le> of_nat ?n" using b by (simp only: of_nat_le_iff)
  also have "\<dots> < ?x" using nn by linarith
  finally have "r < 1 / 2 ^ (?L - 1)" using assms by (simp add: field_simps)
  moreover have "- int ?L + 1 = - int (?L - 1)" using L by simp
  then have "pow2 (ilog2 r + 1) = 1 / 2 ^ (?L - 1)"
    by (simp only: il pow2_neg pow2_nat)
  ultimately have "r < pow2 (ilog2 r + 1)" by simp
  with lo show ?thesis by simp
qed

lemma ilog2_less: "0 < r \<Longrightarrow> r < pow2 k \<Longrightarrow> ilog2 r < k"
proof (rule ccontr)
  assume a: "0 < r" "r < pow2 k" "\<not> ilog2 r < k"
  then have "pow2 k \<le> pow2 (ilog2 r)" by (intro pow2_mono) simp
  with ilog2_bounds [OF a(1)] a(2) show False by simp
qed

lemma ilog2_ge: "0 < r \<Longrightarrow> pow2 k \<le> r \<Longrightarrow> k \<le> ilog2 r"
proof (rule ccontr)
  assume a: "0 < r" "pow2 k \<le> r" "\<not> k \<le> ilog2 r"
  then have "pow2 (ilog2 r + 1) \<le> pow2 k" by (intro pow2_mono) simp
  with ilog2_bounds [OF a(1)] a(2) show False by simp
qed

lemma rne_le: "x \<le> of_int k \<Longrightarrow> rne x \<le> k"
proof -
  assume a: "x \<le> of_int k"
  have f: "\<lfloor>x\<rfloor> \<le> k" using a by (simp add: floor_le_iff)
  show ?thesis
  proof (cases "x = of_int \<lfloor>x\<rfloor>")
    case True
    then have "x - of_int \<lfloor>x\<rfloor> = 0" by simp
    then have "rne x = \<lfloor>x\<rfloor>" by (simp add: rne_def Let_def)
    with f show ?thesis by simp
  next
    case False
    then have "of_int \<lfloor>x\<rfloor> < x" using of_int_floor_le [of x] by linarith
    with a have "(of_int \<lfloor>x\<rfloor> :: rat) < of_int k" by linarith
    then have "\<lfloor>x\<rfloor> + 1 \<le> k" by simp
    moreover have "rne x \<le> \<lfloor>x\<rfloor> + 1" by (simp add: rne_def Let_def)
    ultimately show ?thesis by simp
  qed
qed

lemma rne_ge: "of_int k \<le> x \<Longrightarrow> k \<le> rne x"
proof -
  assume "of_int k \<le> x"
  then have "k \<le> \<lfloor>x\<rfloor>" by (simp add: le_floor_iff)
  moreover have "\<lfloor>x\<rfloor> \<le> rne x" by (simp add: rne_def Let_def)
  ultimately show ?thesis by simp
qed

lemma rne_of_int: "rne (of_int k) = k"
  by (simp add: rne_def)

subsection \<open>The value of an encoded result\<close>

lemma ulp_exp_ge: "- 149 \<le> ulp_exp r"
  by (simp add: ulp_exp_def)

lemma significand_bounds:
  assumes "0 < r"
  shows "0 \<le> rne (r / pow2 (ulp_exp r))"
    and "rne (r / pow2 (ulp_exp r)) \<le> 2 ^ 24"
    and "- 149 < ulp_exp r \<Longrightarrow> 2 ^ 23 \<le> rne (r / pow2 (ulp_exp r))"
proof -
  let ?q = "ulp_exp r"
  have "0 \<le> r / pow2 ?q" using assms by (intro divide_nonneg_pos) simp_all
  then have "(of_int 0 :: rat) \<le> r / pow2 ?q" by simp
  then show "0 \<le> rne (r / pow2 ?q)" by (rule rne_ge)
  have "ilog2 r + 1 \<le> ?q + 24" by (simp add: ulp_exp_def)
  then have "pow2 (ilog2 r + 1) \<le> pow2 (?q + 24)" by (rule pow2_mono)
  with ilog2_bounds [OF assms] have "r < pow2 (?q + 24)" by simp
  also have "\<dots> = pow2 ?q * 2 ^ 24" by (simp add: pow2_add pow2_numeral)
  finally have "r / pow2 ?q \<le> of_int (2 ^ 24)" by (simp add: field_simps)
  then show "rne (r / pow2 ?q) \<le> 2 ^ 24" by (rule rne_le)
  assume "- 149 < ?q"
  then have "ilog2 r = ?q + 23" by (simp add: ulp_exp_def max_def split: if_splits)
  with ilog2_bounds [OF assms] have "pow2 (?q + 23) \<le> r" by simp
  also have "pow2 (?q + 23) = pow2 ?q * 2 ^ 23" by (simp add: pow2_add pow2_numeral)
  finally have "of_int (2 ^ 23) \<le> r / pow2 ?q" by (simp add: field_simps)
  then show "2 ^ 23 \<le> rne (r / pow2 ?q)" by (rule rne_ge)
qed

lemma uint_word32: "0 \<le> k \<Longrightarrow> k < 2 ^ 32 \<Longrightarrow> uint (word_of_int k :: 32 word) = k"
  by (simp add: uint_word_of_int_eq take_bit_int_eq_self)

lemma f32_val_bits:
  assumes "0 \<le> n" and "n < 2 ^ 31"
  shows "f32_val (word_of_int ((if s then 2 ^ 31 else 0) + n)) =
         (if n div 2 ^ 23 = 255
          then (if n mod 2 ^ 23 = 0 then (if s then NegInf else PosInf) else NaN)
          else Finite ((if s then - 1 else 1) *
                 (if n div 2 ^ 23 = 0 then of_int (n mod 2 ^ 23) * pow2 (- 149)
                  else of_int (2 ^ 23 + n mod 2 ^ 23) * pow2 (n div 2 ^ 23 - 150))))"
    and "f32_sign (word_of_int ((if s then 2 ^ 31 else 0) + n)) = s"
proof -
  let ?w = "word_of_int ((if s then 2 ^ 31 else 0) + n) :: 32 word"
  have u: "uint ?w = (if s then 2 ^ 31 else 0) + n"
    using assms by (intro uint_word32) auto
  have e: "n div 2 ^ 23 < 256" "0 \<le> n div 2 ^ 23" using assms by simp_all
  have d: "(uint ?w div 2 ^ 23) mod 256 = n div 2 ^ 23"
  proof (cases s)
    case True
    have "(2 ^ 31 + n) div 2 ^ 23 = 256 + n div (2 ^ 23 :: int)" by simp
    then show ?thesis using True e u by simp
  next
    case False
    then show ?thesis using e u by simp
  qed
  have m: "uint ?w mod 2 ^ 23 = n mod 2 ^ 23"
  proof (cases s)
    case True
    have "(n + 256 * 8388608) mod 8388608 = n mod (8388608 :: int)"
      by (rule mod_mult_self1)
    then have "(2 ^ 31 + n) mod 2 ^ 23 = n mod (2 ^ 23 :: int)" by (simp add: add.commute)
    then show ?thesis using True u by simp
  next
    case False
    then show ?thesis using u by simp
  qed
  show sg: "f32_sign ?w = s" unfolding f32_sign_def u using assms by auto
  show "f32_val ?w =
         (if n div 2 ^ 23 = 255
          then (if n mod 2 ^ 23 = 0 then (if s then NegInf else PosInf) else NaN)
          else Finite ((if s then - 1 else 1) *
                 (if n div 2 ^ 23 = 0 then of_int (n mod 2 ^ 23) * pow2 (- 149)
                  else of_int (2 ^ 23 + n mod 2 ^ 23) * pow2 (n div 2 ^ 23 - 150))))"
    unfolding f32_val_def Let_def d m sg by simp
qed

lemma f32_encode_zero:
  "f32_val (f32_encode s 0) = Finite 0" "f32_sign (f32_encode s 0) = s"
  using f32_val_bits [of 0 s] by (simp_all add: f32_encode_def)

lemma div_mod_block:
  fixes a b c :: int
  assumes "0 \<le> b" and "b < c"
  shows "(a * c + b) div c = a" and "(a * c + b) mod c = b"
  using assms by (simp_all add: div_pos_pos_trivial)

lemma f32_encode_pos:
  assumes "0 < r"
  shows "f32_val (f32_encode s r) =
         (if 255 * 2 ^ 23 \<le> (ulp_exp r + 149) * 2 ^ 23 + rne (r / pow2 (ulp_exp r))
          then (if s then NegInf else PosInf)
          else Finite ((if s then - 1 else 1) * round_f32 r))"
    and "f32_sign (f32_encode s r) = s"
proof -
  let ?q = "ulp_exp r"
  let ?m = "rne (r / pow2 ?q)"
  let ?a = "?q + 149"
  let ?n = "?a * 2 ^ 23 + ?m"
  note sb = significand_bounds [OF assms]
  have a0: "0 \<le> ?a" using ulp_exp_ge [of r] by simp
  have n0: "0 \<le> ?n" using a0 sb(1) by simp
  have rf: "round_f32 r = of_int ?m * pow2 ?q" using assms by (simp add: round_f32_def)
  show "f32_sign (f32_encode s r) = s"
  proof (cases "255 * 2 ^ 23 \<le> ?n")
    case True
    then show ?thesis
      using assms f32_val_bits(2) [of "255 * 2 ^ 23" s] by (simp add: f32_encode_def Let_def)
  next
    case False
    then show ?thesis
      using assms n0 f32_val_bits(2) [of ?n s] by (simp add: f32_encode_def Let_def)
  qed
  show "f32_val (f32_encode s r) =
         (if 255 * 2 ^ 23 \<le> ?n then (if s then NegInf else PosInf)
          else Finite ((if s then - 1 else 1) * round_f32 r))"
  proof (cases "255 * 2 ^ 23 \<le> ?n")
    case True
    then show ?thesis
      using assms f32_val_bits(1) [of "255 * 2 ^ 23" s] by (simp add: f32_encode_def Let_def)
  next
    case False
    then have lt: "?n < 255 * 2 ^ 23" by simp
    then have lt31: "?n < 2 ^ 31" by simp
    have enc: "f32_encode s r = word_of_int ((if s then 2 ^ 31 else 0) + ?n)"
      using assms False by (simp add: f32_encode_def Let_def)
    have dm: "?n div 2 ^ 23 \<noteq> 255"
    proof
      assume "?n div 2 ^ 23 = 255"
      then have "255 * 2 ^ 23 \<le> ?n" by simp
      with lt show False by simp
    qed
    have val: "(if ?n div 2 ^ 23 = 0 then of_int (?n mod 2 ^ 23) * pow2 (- 149)
                else of_int (2 ^ 23 + ?n mod 2 ^ 23) * pow2 (?n div 2 ^ 23 - 150)) =
               of_int ?m * pow2 ?q"
    proof -
      consider "?m < 2 ^ 23" | "2 ^ 23 \<le> ?m" "?m < 2 ^ 24" | "?m = 2 ^ 24"
        using sb(2) by linarith
      then show ?thesis
      proof cases
        case 1
        with sb(3) have q: "?q = - 149" using ulp_exp_ge [of r] by force
        have "?n = ?m" by (simp add: q)
        moreover have "?m div 2 ^ 23 = 0" "?m mod 2 ^ 23 = ?m" using 1 sb(1) by simp_all
        ultimately show ?thesis by (simp add: q)
      next
        case 2
        have eq: "?n = (?a + 1) * 2 ^ 23 + (?m - 2 ^ 23)" by (simp add: algebra_simps)
        have b: "0 \<le> ?m - 2 ^ 23" "?m - 2 ^ 23 < 2 ^ 23" using 2 by simp_all
        have d: "?n div 2 ^ 23 = ?a + 1" and m: "?n mod 2 ^ 23 = ?m - 2 ^ 23"
          unfolding eq by (rule div_mod_block [OF b])+
        have "?a + 1 \<noteq> 0" using a0 by simp
        then show ?thesis unfolding d m by (simp add: algebra_simps)
      next
        case 3
        have eq: "?n = (?a + 2) * 2 ^ 23 + 0" by (simp add: 3 algebra_simps)
        have b: "(0 :: int) \<le> 0" "(0 :: int) < 2 ^ 23" by simp_all
        have d: "?n div 2 ^ 23 = ?a + 2" and m: "?n mod 2 ^ 23 = 0"
          unfolding eq by (rule div_mod_block [OF b])+
        have "?a + 2 \<noteq> 0" using a0 by simp
        moreover have "pow2 (?a + 2 - 150) = 2 * pow2 ?q"
          using pow2_Suc [of ?q] by (simp add: algebra_simps)
        ultimately show ?thesis unfolding d m by (simp add: 3)
      qed
    qed
    show ?thesis
      unfolding enc f32_val_bits(1) [OF n0 lt31] rf
      using False dm val by simp
  qed
qed

subsection \<open>Division and multiplication by 255, on values\<close>

lemma f32_val_Finite:
  assumes "f32_val w = Finite c"
  obtains mag where "c = (if f32_sign w then - mag else mag)" and "0 \<le> mag" and "mag < pow2 128"
proof -
  define e where "e = (uint w div 2 ^ 23) mod 256"
  define m where "m = uint w mod 2 ^ 23"
  define mag :: rat where
    "mag = (if e = 0 then of_int m * pow2 (- 149) else of_int (2 ^ 23 + m) * pow2 (e - 150))"
  have v: "f32_val w =
        (if e = 255 then (if m = 0 then (if f32_sign w then NegInf else PosInf) else NaN)
         else Finite ((if f32_sign w then - 1 else 1) * mag))"
    unfolding f32_val_def Let_def e_def m_def mag_def by (rule refl)
  have m: "0 \<le> m" "m < 2 ^ 23" unfolding m_def by simp_all
  have "e < 256" unfolding e_def by simp
  moreover from assms v have e: "e \<noteq> 255" by (auto split: if_splits)
  ultimately have e254: "e \<le> 254" by linarith
  from assms v e have c: "c = (if f32_sign w then - mag else mag)" by (simp split: if_splits)
  have mag0: "0 \<le> mag" unfolding mag_def using m(1) by (simp add: less_imp_le)
  have "mag < pow2 128"
  proof (cases "e = 0")
    case True
    have "(of_int m :: rat) < of_int (2 ^ 23)" using m(2) by (simp only: of_int_less_iff)
    then have "of_int m * pow2 (- 149) < (2 ^ 23 :: rat) * pow2 (- 149)"
      by (intro mult_strict_right_mono) simp_all
    also have "\<dots> = pow2 (- 126)" by (simp add: pow2_neg_numeral)
    also have "\<dots> < pow2 128" by (rule pow2_strict_mono) simp
    finally show ?thesis using True by (simp add: mag_def)
  next
    case False
    have "2 ^ 23 + m < 2 ^ 24" using m(2) by simp
    then have "(of_int (2 ^ 23 + m) :: rat) < of_int (2 ^ 24)" by (simp only: of_int_less_iff)
    then have "of_int (2 ^ 23 + m) * pow2 (e - 150) < (2 ^ 24 :: rat) * pow2 (e - 150)"
      by (intro mult_strict_right_mono) simp_all
    also have "\<dots> = pow2 24 * pow2 (e - 150)" by (simp add: pow2_numeral)
    also have "\<dots> = pow2 (24 + (e - 150))" by (simp only: pow2_add)
    also have "\<dots> \<le> pow2 128" using e254 by (intro pow2_mono) simp
    finally show ?thesis using False by (simp add: mag_def)
  qed
  with c mag0 show ?thesis by (rule that)
qed

lemma f32_val_Finite_sign:
  assumes "f32_val w = Finite c"
  shows "c = (if f32_sign w then - \<bar>c\<bar> else \<bar>c\<bar>)"
  using f32_val_Finite [OF assms] by (metis abs_of_nonneg abs_minus_cancel)

lemma f32_val_Finite_bound:
  assumes "f32_val w = Finite c"
  shows "\<bar>c\<bar> < pow2 128"
  using f32_val_Finite [OF assms] by (metis abs_of_nonneg abs_minus_cancel)

lemma round_f32_nonneg: "0 \<le> r \<Longrightarrow> 0 \<le> round_f32 r"
proof (cases "r = 0")
  case True
  then show ?thesis by (simp add: round_f32_def)
next
  case False
  assume "0 \<le> r"
  with False have "0 < r" by simp
  from significand_bounds(1) [OF this] show ?thesis
    using False by (simp add: round_f32_def less_imp_le)
qed

lemma overflow_large:
  assumes "0 < r"
    and "255 * 2 ^ 23 \<le> (ulp_exp r + 149) * 2 ^ 23 + rne (r / pow2 (ulp_exp r))"
  shows "255 \<le> round_f32 r"
proof -
  let ?q = "ulp_exp r" and ?m = "rne (r / pow2 (ulp_exp r))"
  note sb = significand_bounds [OF assms(1)]
  from assms(2) sb(2) have "253 * 2 ^ 23 \<le> (?q + 149) * (2 ^ 23 :: int)" by simp
  then have q: "104 \<le> ?q" by simp
  then have m: "2 ^ 23 \<le> ?m" using sb(3) by simp
  have "pow2 0 \<le> pow2 ?q" using q by (intro pow2_mono) simp
  then have p: "1 \<le> pow2 ?q" by (simp add: pow2_0)
  have "(of_int (2 ^ 23) :: rat) \<le> of_int ?m" using m by (simp only: of_int_le_iff)
  then have "(2 ^ 23 :: rat) \<le> of_int ?m" by simp
  then have "(2 ^ 23 :: rat) * 1 \<le> of_int ?m * pow2 ?q"
    using p by (intro mult_mono) simp_all
  then show ?thesis using assms(1) by (simp add: round_f32_def)
qed

lemma no_overflow_small:
  assumes "0 < r" and "r < pow2 121"
  shows "\<not> 255 * 2 ^ 23 \<le> (ulp_exp r + 149) * 2 ^ 23 + rne (r / pow2 (ulp_exp r))"
proof -
  let ?q = "ulp_exp r" and ?m = "rne (r / pow2 (ulp_exp r))"
  note sb = significand_bounds [OF assms(1)]
  from assms have "ilog2 r < 121" by (rule ilog2_less)
  then have "?q \<le> 97" by (simp add: ulp_exp_def)
  then have "(?q + 149) * 2 ^ 23 \<le> 246 * (2 ^ 23 :: int)" by simp
  with sb(2) show ?thesis by simp
qed

lemma clip_0_255_simps:
  "clip_0_255 (Finite x) = Finite (min (max x 0) 255)"
  "clip_0_255 PosInf = Finite 255"
  "clip_0_255 NegInf = Finite 0"
  "clip_0_255 NaN = NaN"
  by (auto simp: clip_0_255_def fv_min_def fv_max_def)

lemma f32_val_div255:
  assumes "f32_val w = Finite c"
  shows "f32_val (f32_div255 w) = Finite (fl32 (c / 255))"
proof (cases "c = 0")
  case True
  with assms show ?thesis
    by (simp add: f32_div255_def f32_encode_zero fl32_def round_f32_def)
next
  case False
  let ?r = "\<bar>c\<bar> / 255"
  have r: "0 < ?r" using False by simp
  have "\<bar>c\<bar> < pow2 128" using assms by (rule f32_val_Finite_bound)
  also have "pow2 128 = pow2 121 * pow2 7" by (simp flip: pow2_add)
  also have "\<dots> \<le> pow2 121 * 255" by (intro mult_left_mono) (simp_all add: pow2_numeral less_imp_le)
  finally have "?r < pow2 121" by simp
  with r have no: "\<not> 255 * 2 ^ 23 \<le> (ulp_exp ?r + 149) * 2 ^ 23 + rne (?r / pow2 (ulp_exp ?r))"
    by (rule no_overflow_small)
  have "f32_val (f32_div255 w) = Finite ((if f32_sign w then - 1 else 1) * round_f32 ?r)"
    using assms f32_encode_pos(1) [OF r, of "f32_sign w"] no
    by (simp add: f32_div255_def)
  also have "(if f32_sign w then - 1 else 1) * round_f32 ?r = fl32 (c / 255)"
    using f32_val_Finite_sign [OF assms] False
    by (cases "c < 0") (auto simp: fl32_def abs_if split: if_splits)
  finally show ?thesis .
qed

lemma clip_mul255:
  assumes "f32_val w = Finite c"
  shows "clip_0_255 (f32_val (f32_mul255 w)) = Finite (min (max (fl32 (c * 255)) 0) 255)"
proof (cases "c = 0")
  case True
  with assms show ?thesis
    by (simp add: f32_mul255_def f32_encode_zero fl32_def round_f32_def clip_0_255_simps)
next
  case False
  let ?r = "\<bar>c\<bar> * 255"
  have r: "0 < ?r" using False by simp
  have rn: "0 \<le> round_f32 ?r" using r by (intro round_f32_nonneg) simp
  have fl: "fl32 (c * 255) = (if f32_sign w then - 1 else 1) * round_f32 ?r"
    using f32_val_Finite_sign [OF assms] False
    by (cases "c < 0") (auto simp: fl32_def abs_if split: if_splits)
  have enc: "f32_val (f32_mul255 w) =
        (if 255 * 2 ^ 23 \<le> (ulp_exp ?r + 149) * 2 ^ 23 + rne (?r / pow2 (ulp_exp ?r))
         then (if f32_sign w then NegInf else PosInf)
         else Finite (fl32 (c * 255)))"
    using assms f32_encode_pos(1) [OF r, of "f32_sign w"] by (simp add: f32_mul255_def fl)
  show ?thesis
  proof (cases "255 * 2 ^ 23 \<le> (ulp_exp ?r + 149) * 2 ^ 23 + rne (?r / pow2 (ulp_exp ?r))")
    case True
    from overflow_large [OF r True] have big: "255 \<le> round_f32 ?r" .
    show ?thesis
      using True big by (cases "f32_sign w") (simp_all add: enc clip_0_255_simps fl)
  next
    case no: False
    then show ?thesis by (simp add: enc clip_0_255_simps)
  qed
qed

lemma uint_byte: "0 \<le> k \<Longrightarrow> k \<le> 255 \<Longrightarrow> uint (word_of_int k :: byte) = k"
  by (simp add: uint_word_of_int_eq take_bit_int_eq_self)

lemma color_byte_value:
  assumes "f32_val w = Finite c"
  shows "uint (color_byte w) = \<lfloor>min (max (fl32 (c * 255)) 0) 255\<rfloor>"
proof -
  let ?x = "min (max (fl32 (c * 255)) 0) 255"
  have x: "0 \<le> ?x" "?x \<le> 255" by simp_all
  then have f: "0 \<le> \<lfloor>?x\<rfloor>" "\<lfloor>?x\<rfloor> \<le> 255" by (simp_all add: floor_le_iff le_floor_iff)
  have "color_byte w = word_of_int \<lfloor>?x\<rfloor>"
    using x(1) by (simp add: color_byte_def clip_mul255 [OF assms] astype_uint8_def)
  then show ?thesis using f by (simp only: uint_byte)
qed

section \<open>Properties of the binary buffer\<close>

subsection \<open>Blocks of equal length\<close>

lemma length_le_bytes32: "length (le_bytes32 w) = 4"
  by (simp add: le_bytes32_def)

lemma from_le32_le_bytes32: "from_le32 (le_bytes32 w) = w"
proof (rule bit_word_eqI)
  fix n assume n: "n < LENGTH(32)"
  consider "n < 8" | "8 \<le> n" "n < 16" | "16 \<le> n" "n < 24" | "24 \<le> n"
    by linarith
  then show "bit (from_le32 (le_bytes32 w)) n = bit w n"
    using n unfolding from_le32_def le_bytes32_def
    by cases (auto simp: bit_simps)
qed

lemma length_concat_uniform:
  "\<forall>b \<in> set bs. length b = k \<Longrightarrow> length (concat bs) = length bs * k"
  by (induction bs) simp_all

lemma take_drop_concat_uniform:
  "\<forall>b \<in> set bs. length b = k \<Longrightarrow> i < length bs \<Longrightarrow>
   take k (drop (i * k) (concat bs)) = bs ! i"
proof (induction bs arbitrary: i)
  case Nil
  then show ?case by simp
next
  case (Cons b bs)
  show ?case
  proof (cases i)
    case 0
    with Cons.prems show ?thesis by simp
  next
    case (Suc j)
    with Cons.prems have "take k (drop (j * k) (concat bs)) = bs ! j"
      by (intro Cons.IH) simp_all
    with Cons.prems Suc show ?thesis by simp
  qed
qed

lemma nth_concat_uniform:
  "\<forall>b \<in> set bs. length b = k \<Longrightarrow> i < length bs \<Longrightarrow> j < k \<Longrightarrow>
   concat bs ! (i * k + j) = bs ! i ! j"
proof -
  assume a: "\<forall>b \<in> set bs. length b = k" "i < length bs" "j < k"
  have "concat bs ! (i * k + j) = drop (i * k) (concat bs) ! j"
    using a by (simp add: length_concat_uniform [OF a(1)] add.commute)
  also have "\<dots> = take k (drop (i * k) (concat bs)) ! j"
    using a by simp
  also have "\<dots> = bs ! i ! j"
    using a by (simp add: take_drop_concat_uniform)
  finally show ?thesis .
qed

lemma position_bytes_flat:
  "concat (map (\<lambda>r. concat (map le_bytes32 r)) rs) = concat (map le_bytes32 (concat rs))"
  by (induction rs) simp_all

lemma length_position_bytes:
  "\<forall>r \<in> set rs. length r = 3 \<Longrightarrow>
   length (concat (map (\<lambda>r. concat (map le_bytes32 r)) rs)) = 12 * length rs"
  by (induction rs) (simp_all add: length_concat_uniform [where k = 4] length_le_bytes32)

lemma position_bytes_at:
  assumes "\<forall>r \<in> set rs. length r = 3" and "i < length rs" and "k < 3"
  shows "take 4 (drop (12 * i + 4 * k) (concat (map (\<lambda>r. concat (map le_bytes32 r)) rs))) =
         le_bytes32 (rs ! i ! k)"
proof -
  have len: "length (concat rs) = length rs * 3"
    using assms(1) by (rule length_concat_uniform)
  have lt: "i * 3 + k < length (concat rs)"
  proof -
    have "i * 3 + k < Suc i * 3" using assms(3) by simp
    also have "\<dots> \<le> length rs * 3" using assms(2) by (intro mult_le_mono1) simp
    finally show ?thesis by (simp add: len)
  qed
  have "take 4 (drop ((i * 3 + k) * 4) (concat (map le_bytes32 (concat rs)))) =
        map le_bytes32 (concat rs) ! (i * 3 + k)"
    using lt by (intro take_drop_concat_uniform) (auto simp: length_le_bytes32)
  also have "\<dots> = le_bytes32 (concat rs ! (i * 3 + k))"
    using lt by simp
  also have "concat rs ! (i * 3 + k) = rs ! i ! k"
    using assms by (rule nth_concat_uniform)
  finally show ?thesis
    by (simp add: position_bytes_flat algebra_simps)
qed

lemma length_color_bytes:
  "\<forall>r \<in> set rs. length r = 3 \<Longrightarrow> length (concat (map (map f) rs)) = 3 * length rs"
  by (induction rs) simp_all

lemma color_bytes_at:
  assumes "\<forall>r \<in> set rs. length r = 3" and "i < length rs" and "k < 3"
  shows "concat (map (map f) rs) ! (3 * i + k) = f (rs ! i ! k)"
proof -
  have "concat (map (map f) rs) ! (i * 3 + k) = map (map f) rs ! i ! k"
    using assms by (intro nth_concat_uniform) auto
  then show ?thesis using assms by (simp add: mult.commute)
qed

lemma point_cloud_rows:
  assumes "point_cloud arr hc"
  shows "\<forall>r \<in> set (rows (cols_upto 3 arr)). length r = 3"
    and "hc \<Longrightarrow> \<forall>r \<in> set (rows (cols_3_6 arr)). length r = 3"
    and "length (rows (cols_upto 3 arr)) = length (rows arr)"
    and "length (rows (cols_3_6 arr)) = length (rows arr)"
    and "i < length (rows arr) \<Longrightarrow> k < 3 \<Longrightarrow> rows (cols_upto 3 arr) ! i ! k = rows arr ! i ! k"
    and "hc \<Longrightarrow> i < length (rows arr) \<Longrightarrow> k < 3 \<Longrightarrow>
         rows (cols_3_6 arr) ! i ! k = rows arr ! i ! (3 + k)"
  using assms
  by (auto simp: point_cloud_def regular_def cols_upto_def cols_3_6_def split: if_splits)

lemma encode_eq:
  assumes "length (rows arr) < 2 ^ 32"
  shows "encode arr hc =
         Inr ((le_bytes32 (of_nat (length (rows arr))) @ [if hc then 1 else 0]) @
              concat (map (\<lambda>r. concat (map le_bytes32 r)) (rows (cols_upto 3 arr))) @
              (if hc then concat (map (map color_byte) (rows (cols_3_6 arr))) else []))"
  using assms by (simp add: encode_def Let_def)

lemma unat_of_nat32: "n < 2 ^ 32 \<Longrightarrow> unat (of_nat n :: 32 word) = n"
  by (simp add: unat_of_nat)

text \<open>
  Claim C1. For every point cloud (an array of \<open>N\<close> rows with the three position columns
  and, with colours, the three colour columns) whose \<open>N\<close> fits 32 bits, \<^verbatim>\<open>encode\<close> returns
  a buffer of exactly \<open>5 + 12 N\<close> bytes, plus \<open>3 N\<close> with colours: bytes 0..3 are \<open>N\<close> as an
  unsigned 32-bit little-endian integer, byte 4 is the colour flag 0 or 1, the four bytes
  at \<open>5 + 12 i + 4 k\<close> are the little-endian binary32 pattern of coordinate \<open>k\<close> of point
  \<open>i\<close>, and the colour bytes follow, with nothing between or after. The decoder of the
  layout returns \<open>N\<close>, the flag, the positions bit for bit and the colour bytes.
\<close>

theorem encode_layout:
  assumes "point_cloud arr hc" and "length (rows arr) < 2 ^ 32"
  shows "\<exists>buf. encode arr hc = Inr buf \<and>
           length buf = 5 + 12 * length (rows arr) + (if hc then 3 * length (rows arr) else 0) \<and>
           take 4 buf = le_bytes32 (of_nat (length (rows arr))) \<and>
           buf ! 4 = (if hc then 1 else 0) \<and>
           (\<forall>i < length (rows arr). \<forall>k < 3.
               take 4 (drop (5 + 12 * i + 4 * k) buf) = le_bytes32 (rows arr ! i ! k)) \<and>
           decode buf =
             Some \<lparr>dec_num_points = length (rows arr), dec_has_colors = hc,
                    dec_positions = rows (cols_upto 3 arr),
                    dec_colors = (if hc then map (map color_byte) (rows (cols_3_6 arr)) else [])\<rparr>"
proof -
  let ?N = "length (rows arr)"
  let ?H = "le_bytes32 (of_nat ?N) @ [if hc then 1 else 0 :: byte]"
  let ?P = "concat (map (\<lambda>r. concat (map le_bytes32 r)) (rows (cols_upto 3 arr)))"
  let ?C = "if hc then concat (map (map color_byte) (rows (cols_3_6 arr))) else []"
  let ?buf = "?H @ ?P @ ?C"
  note pc = point_cloud_rows [OF assms(1)]
  have enc: "encode arr hc = Inr ?buf" by (rule encode_eq [OF assms(2)])
  have lH: "length ?H = 5" by (simp add: length_le_bytes32)
  have lP: "length ?P = 12 * ?N" using pc(1) by (simp add: length_position_bytes pc(3))
  have lC: "length ?C = (if hc then 3 * ?N else 0)"
    using pc(2) by (simp add: length_color_bytes pc(4))
  have len: "length ?buf = 5 + 12 * ?N + (if hc then 3 * ?N else 0)"
    using lH lP lC by simp
  have hd4: "take 4 ?buf = le_bytes32 (of_nat ?N)" by (simp add: length_le_bytes32)
  have flag: "?buf ! 4 = (if hc then 1 else 0)"
    by (simp add: nth_append length_le_bytes32)
  have pos: "take 4 (drop (5 + 12 * i + 4 * k) ?buf) = le_bytes32 (rows arr ! i ! k)"
    if "i < ?N" "k < 3" for i k
  proof -
    have "12 * i + 4 * k + 4 \<le> 12 * ?N" using that by simp
    then have "take 4 (drop (5 + 12 * i + 4 * k) ?buf) = take 4 (drop (12 * i + 4 * k) ?P)"
      using lH lP by simp
    also have "\<dots> = le_bytes32 (rows (cols_upto 3 arr) ! i ! k)"
      using pc(1) that by (intro position_bytes_at) (simp_all add: pc(3))
    finally show ?thesis using that by (simp add: pc(5))
  qed
  have col: "?buf ! (5 + 12 * ?N + 3 * i + k) = color_byte (rows (cols_3_6 arr) ! i ! k)"
    if "hc" "i < ?N" "k < 3" for i k
  proof -
    have "?buf ! (5 + 12 * ?N + 3 * i + k) = ?C ! (3 * i + k)"
      using lH lP by (simp add: nth_append)
    also have "\<dots> = color_byte (rows (cols_3_6 arr) ! i ! k)"
      using that pc(2) by (simp add: color_bytes_at pc(4))
    finally show ?thesis .
  qed
  have n: "unat (from_le32 (take 4 ?buf)) = ?N"
    by (simp only: hd4 from_le32_le_bytes32 unat_of_nat32 [OF assms(2)])
  have dpos: "map (\<lambda>i. map (\<lambda>k. from_le32 (take 4 (drop (5 + 12 * i + 4 * k) ?buf))) [0..<3])
                [0..<?N] = rows (cols_upto 3 arr)"
  proof (rule map_upt_eqI)
    show "length (rows (cols_upto 3 arr)) = ?N - 0" by (simp add: pc(3))
    fix i assume i: "i < length (rows (cols_upto 3 arr))"
    then have i': "i < ?N" by (simp add: pc(3))
    have l3: "length (rows (cols_upto 3 arr) ! i) = 3" using pc(1) i by simp
    have "map (\<lambda>k. from_le32 (take 4 (drop (5 + 12 * (0 + i) + 4 * k) ?buf))) [0..<3] =
          rows (cols_upto 3 arr) ! i"
    proof (rule map_upt_eqI)
      show "length (rows (cols_upto 3 arr) ! i) = 3 - 0" using l3 by simp
      fix k assume "k < length (rows (cols_upto 3 arr) ! i)"
      then have k: "k < 3" using l3 by simp
      show "rows (cols_upto 3 arr) ! i ! k =
            from_le32 (take 4 (drop (5 + 12 * (0 + i) + 4 * (0 + k)) ?buf))"
        using pos [OF i' k] by (simp add: from_le32_le_bytes32 pc(5) [OF i' k])
    qed
    then show "rows (cols_upto 3 arr) ! i =
               map (\<lambda>k. from_le32 (take 4 (drop (5 + 12 * (0 + i) + 4 * k) ?buf))) [0..<3]"
      by simp
  qed
  have dcol: "map (\<lambda>i. map (\<lambda>k. ?buf ! (5 + 12 * ?N + 3 * i + k)) [0..<3]) [0..<?N] =
              map (map color_byte) (rows (cols_3_6 arr))" if hc
  proof (rule map_upt_eqI)
    show "length (map (map color_byte) (rows (cols_3_6 arr))) = ?N - 0" by (simp add: pc(4))
    fix i assume "i < length (map (map color_byte) (rows (cols_3_6 arr)))"
    then have i': "i < ?N" by (simp add: pc(4))
    then have l3: "length (rows (cols_3_6 arr) ! i) = 3" using pc(2) [OF that] by (simp add: pc(4))
    have "map (\<lambda>k. ?buf ! (5 + 12 * ?N + 3 * (0 + i) + k)) [0..<3] =
          map color_byte (rows (cols_3_6 arr) ! i)"
    proof (rule map_upt_eqI)
      show "length (map color_byte (rows (cols_3_6 arr) ! i)) = 3 - 0" using l3 by simp
      fix k assume "k < length (map color_byte (rows (cols_3_6 arr) ! i))"
      then have k: "k < 3" using l3 by simp
      show "map color_byte (rows (cols_3_6 arr) ! i) ! k =
            ?buf ! (5 + 12 * ?N + 3 * (0 + i) + (0 + k))"
        using col [OF that i' k] k l3 by simp
    qed
    then show "map (map color_byte) (rows (cols_3_6 arr)) ! i =
               map (\<lambda>k. ?buf ! (5 + 12 * ?N + 3 * (0 + i) + k)) [0..<3]"
      using i' by (simp add: pc(4))
  qed
  have dec: "decode ?buf =
             Some \<lparr>dec_num_points = ?N, dec_has_colors = hc,
                    dec_positions = rows (cols_upto 3 arr),
                    dec_colors = (if hc then map (map color_byte) (rows (cols_3_6 arr)) else [])\<rparr>"
  proof (cases hc)
    case True
    then show ?thesis
      unfolding decode_def Let_def n
      using len flag dpos dcol by simp
  next
    case False
    then show ?thesis
      unfolding decode_def Let_def n
      using len flag dpos by simp
  qed
  from enc len hd4 flag pos dec show ?thesis by blast
qed

text \<open>A cloud of one point at the origin with the colour \<open>(0.375, 0, 0)\<close>.\<close>

lemma cb: "color_byte 0x3EC00000 = 95" "color_byte 0 = 0"
  by code_simp+

lemma sample_cloud:
  "point_cloud \<lparr>ncols = 6, rows = [[0, 0, 0, 0x3EC00000, 0, 0]]\<rparr> True"
  by (simp add: point_cloud_def regular_def)

lemma sample_floor: "\<lfloor>min (max (fl32 (765 / 8)) 0) 255\<rfloor> = 95"
  by code_simp

theorem encode_layout_witness:
  "\<exists>buf. encode \<lparr>ncols = 6, rows = [[0, 0, 0, 0x3EC00000, 0, 0]]\<rparr> True = Inr buf \<and>
         length buf = 20 \<and> take 4 buf = [1, 0, 0, 0] \<and> buf ! 4 = 1 \<and>
         take 4 (drop 5 buf) = [0, 0, 0, 0] \<and>
         decode buf = Some \<lparr>dec_num_points = 1, dec_has_colors = True,
                             dec_positions = [[0, 0, 0]], dec_colors = [[95, 0, 0]]\<rparr>"
proof -
  let ?A = "\<lparr>ncols = 6, rows = [[0, 0, 0, 0x3EC00000, 0, 0]]\<rparr>"
  have l: "length (rows ?A) < 2 ^ 32" by simp
  from encode_layout [OF sample_cloud l] obtain buf where
    b1: "encode ?A True = Inr buf"
    and b2: "length buf = 5 + 12 * length (rows ?A) + (if True then 3 * length (rows ?A) else 0)"
    and b3: "take 4 buf = le_bytes32 (of_nat (length (rows ?A)))"
    and b4: "buf ! 4 = (if True then 1 else 0)"
    and b5: "\<forall>i < length (rows ?A). \<forall>k < 3.
          take 4 (drop (5 + 12 * i + 4 * k) buf) = le_bytes32 (rows ?A ! i ! k)"
    and b6: "decode buf = Some \<lparr>dec_num_points = length (rows ?A), dec_has_colors = True,
          dec_positions = rows (cols_upto 3 ?A),
          dec_colors = (if True then map (map color_byte) (rows (cols_3_6 ?A)) else [])\<rparr>"
    by blast
  have c2: "length buf = 20" using b2 by simp
  have c3: "take 4 buf = [1, 0, 0, 0]" using b3 by (simp add: le_bytes32_def)
  have c4: "buf ! 4 = 1" using b4 by simp
  have "0 < length (rows ?A)" "(0 :: nat) < 3" by simp_all
  with b5 have "take 4 (drop (5 + 12 * 0 + 4 * 0) buf) = le_bytes32 (rows ?A ! 0 ! 0)"
    by blast
  then have c5: "take 4 (drop 5 buf) = [0, 0, 0, 0]" by (simp add: le_bytes32_def)
  have c6: "decode buf = Some \<lparr>dec_num_points = 1, dec_has_colors = True,
                             dec_positions = [[0, 0, 0]], dec_colors = [[95, 0, 0]]\<rparr>"
    using b6 by (simp add: cols_upto_def cols_3_6_def cb)
  from b1 c2 c3 c4 c5 c6 show ?thesis by blast
qed

subsection \<open>Colour bytes\<close>

text \<open>
  Claim C2, as stated, asks for \<open>round(clamp(color * 255, 0, 255))\<close>. The conversion to
  \<^verbatim>\<open>uint8\<close> does not round: the channel \<open>0.375\<close> gives \<open>95.625\<close>, which the specification
  rounds to 96 and the buffer holds as 95.
\<close>

theorem encode_color_rounding_counterexample:
  "encode \<lparr>ncols = 6, rows = [[0, 0, 0, 0x3EC00000, 0, 0]]\<rparr> True =
     Inr [1, 0, 0, 0, 1,  0, 0, 0, 0,  0, 0, 0, 0,  0, 0, 0, 0,  95, 0, 0] \<and>
   f32_val 0x3EC00000 = Finite (3 / 8) \<and>
   spec_color_byte (3 / 8) = 96"
  by (simp add: encode_def cols_upto_def cols_3_6_def le_bytes32_def cb
      f32_val_def f32_sign_def pow2_def spec_color_byte_def round_def floor_eq_iff)

lemma encode_color_at:
  assumes "point_cloud arr True" and "length (rows arr) < 2 ^ 32"
    and "i < length (rows arr)" and "k < 3"
  shows "\<exists>buf. encode arr True = Inr buf \<and>
           buf ! (5 + 12 * length (rows arr) + 3 * i + k) = color_byte (rows arr ! i ! (3 + k))"
proof -
  let ?N = "length (rows arr)"
  let ?H = "le_bytes32 (of_nat ?N) @ [1 :: byte]"
  let ?P = "concat (map (\<lambda>r. concat (map le_bytes32 r)) (rows (cols_upto 3 arr)))"
  let ?C = "concat (map (map color_byte) (rows (cols_3_6 arr)))"
  note pc = point_cloud_rows [OF assms(1)]
  have enc: "encode arr True = Inr (?H @ ?P @ ?C)"
    using encode_eq [OF assms(2), of True] by simp
  have lH: "length ?H = 5" by (simp add: length_le_bytes32)
  have lP: "length ?P = 12 * ?N" using pc(1) by (simp add: length_position_bytes pc(3))
  have "(?H @ ?P @ ?C) ! (5 + 12 * ?N + 3 * i + k) = ?C ! (3 * i + k)"
    using lH lP by (simp add: nth_append)
  also have "\<dots> = color_byte (rows (cols_3_6 arr) ! i ! k)"
    using assms(3,4) pc(2) by (simp add: color_bytes_at pc(4))
  also have "\<dots> = color_byte (rows arr ! i ! (3 + k))"
    using assms(3,4) by (simp add: pc(6))
  finally show ?thesis using enc by blast
qed

text \<open>
  Claim C2, amended. For every point cloud with colours, the byte of channel \<open>k\<close> of point
  \<open>i\<close>, at offset \<open>5 + 12 N + 3 i + k\<close>, is the integer part (the floor) of
  \<open>clamp(color * 255, 0, 255)\<close>, the product being the \<^verbatim>\<open>float32\<close> product of a channel
  that is a number: the value is truncated, not rounded to the nearest.
\<close>

theorem encode_color_bytes:
  assumes "point_cloud arr True" and "length (rows arr) < 2 ^ 32"
    and "i < length (rows arr)" and "k < 3"
    and "f32_val (rows arr ! i ! (3 + k)) = Finite c"
  shows "\<exists>buf. encode arr True = Inr buf \<and>
           uint (buf ! (5 + 12 * length (rows arr) + 3 * i + k)) =
           \<lfloor>min (max (fl32 (c * 255)) 0) 255\<rfloor>"
  using encode_color_at [OF assms(1-4)] color_byte_value [OF assms(5)] by auto

theorem encode_color_bytes_witness:
  "\<exists>buf. encode \<lparr>ncols = 6, rows = [[0, 0, 0, 0x3EC00000, 0, 0]]\<rparr> True = Inr buf \<and>
         uint (buf ! 17) = 95"
proof -
  have v: "f32_val ([[0, 0, 0, 0x3EC00000, 0, 0]] ! 0 ! (3 + 0)) = Finite (3 / 8)"
    by (simp add: f32_val_def f32_sign_def pow2_def)
  from encode_color_bytes [OF sample_cloud, of 0 0 "3 / 8"] v
  show ?thesis by (simp add: sample_floor)
qed

section \<open>Properties of the metadata\<close>

subsection \<open>Minimum and maximum\<close>

lemma fv_less_irrefl: "\<not> fv_less x x"
  by (cases x) simp_all

lemma fv_less_trans: "fv_less x y \<Longrightarrow> fv_less y z \<Longrightarrow> fv_less x z"
  by (cases x; cases y; cases z) simp_all

lemma fv_less_NaN: "\<not> fv_less x NaN" "\<not> fv_less NaN x"
  by (cases x; simp)+

lemma fv_min_cases: "x \<noteq> NaN \<Longrightarrow> y \<noteq> NaN \<Longrightarrow>
    (fv_min x y = x \<and> \<not> fv_less y x) \<or> (fv_min x y = y \<and> fv_less y x)"
  by (simp add: fv_min_def)

lemma fv_max_cases: "x \<noteq> NaN \<Longrightarrow> y \<noteq> NaN \<Longrightarrow>
    (fv_max x y = x \<and> \<not> fv_less x y) \<or> (fv_max x y = y \<and> fv_less x y)"
  by (simp add: fv_max_def)

lemma not_less_trans:
  assumes "x \<noteq> NaN" "y \<noteq> NaN" "z \<noteq> NaN" "\<not> fv_less y x" "\<not> fv_less z y"
  shows "\<not> fv_less z x"
  using assms by (cases x; cases y; cases z) auto

lemma foldl_NaN:
  "(\<And>x. f NaN x = NaN) \<Longrightarrow> (\<And>x. f x NaN = NaN) \<Longrightarrow>
   x = NaN \<or> NaN \<in> set xs \<Longrightarrow> foldl f x xs = NaN"
proof (induction xs arbitrary: x)
  case Nil
  then show ?case by simp
next
  case (Cons y ys)
  from Cons.prems(3) have "f x y = NaN \<or> NaN \<in> set ys"
    using Cons.prems(1,2) by auto
  then have "foldl f (f x y) ys = NaN" by (intro Cons.IH Cons.prems(1,2))
  then show ?case by simp
qed

lemma foldl_fv_min_NaN: "NaN \<in> set (x # xs) \<Longrightarrow> foldl fv_min x xs = NaN"
  by (rule foldl_NaN) (auto simp: fv_min_def)

lemma foldl_fv_max_NaN: "NaN \<in> set (x # xs) \<Longrightarrow> foldl fv_max x xs = NaN"
  by (rule foldl_NaN) (auto simp: fv_max_def)

lemma foldl_fv_min_numbers:
  "NaN \<notin> set (x # xs) \<Longrightarrow> is_min (foldl fv_min x xs) (x # xs)"
proof (induction xs arbitrary: x)
  case Nil
  then show ?case by (simp add: is_min_def fv_less_irrefl)
next
  case (Cons y ys)
  then have n: "x \<noteq> NaN" "y \<noteq> NaN" "NaN \<notin> set ys" by auto
  from fv_min_cases [OF n(1,2)] have m: "fv_min x y \<noteq> NaN" using n by auto
  with n have "NaN \<notin> set (fv_min x y # ys)" by auto
  then have IH: "is_min (foldl fv_min (fv_min x y) ys) (fv_min x y # ys)" by (rule Cons.IH)
  let ?v = "foldl fv_min (fv_min x y) ys"
  from IH have v: "?v \<in> set (fv_min x y # ys)" "\<not> fv_less (fv_min x y) ?v"
    "\<forall>z \<in> set ys. \<not> fv_less z ?v"
    by (auto simp: is_min_def)
  have vn: "?v \<noteq> NaN" using v(1) m n(3) by auto
  have mem: "?v \<in> set (x # y # ys)" using v(1) fv_min_cases [OF n(1,2)] by auto
  have lx: "\<not> fv_less x ?v"
  proof (rule not_less_trans [OF vn m n(1) v(2)])
    show "\<not> fv_less x (fv_min x y)" using fv_min_cases [OF n(1,2)]
      by (auto simp: fv_less_irrefl dest: fv_less_trans)
  qed
  have ly: "\<not> fv_less y ?v"
  proof (rule not_less_trans [OF vn m n(2) v(2)])
    show "\<not> fv_less y (fv_min x y)" using fv_min_cases [OF n(1,2)]
      by (auto simp: fv_less_irrefl)
  qed
  from mem lx ly v(3) show ?case by (simp add: is_min_def)
qed

lemma foldl_fv_max_numbers:
  "NaN \<notin> set (x # xs) \<Longrightarrow> is_max (foldl fv_max x xs) (x # xs)"
proof (induction xs arbitrary: x)
  case Nil
  then show ?case by (simp add: is_max_def fv_less_irrefl)
next
  case (Cons y ys)
  then have n: "x \<noteq> NaN" "y \<noteq> NaN" "NaN \<notin> set ys" by auto
  from fv_max_cases [OF n(1,2)] have m: "fv_max x y \<noteq> NaN" using n by auto
  with n have "NaN \<notin> set (fv_max x y # ys)" by auto
  then have IH: "is_max (foldl fv_max (fv_max x y) ys) (fv_max x y # ys)" by (rule Cons.IH)
  let ?v = "foldl fv_max (fv_max x y) ys"
  from IH have v: "?v \<in> set (fv_max x y # ys)" "\<not> fv_less ?v (fv_max x y)"
    "\<forall>z \<in> set ys. \<not> fv_less ?v z"
    by (auto simp: is_max_def)
  have vn: "?v \<noteq> NaN" using v(1) m n(3) by auto
  have mem: "?v \<in> set (x # y # ys)" using v(1) fv_max_cases [OF n(1,2)] by auto
  have lx: "\<not> fv_less ?v x"
  proof (rule not_less_trans [OF n(1) m vn _ v(2)])
    show "\<not> fv_less (fv_max x y) x" using fv_max_cases [OF n(1,2)]
      by (auto simp: fv_less_irrefl dest: fv_less_trans)
  qed
  have ly: "\<not> fv_less ?v y"
  proof (rule not_less_trans [OF n(2) m vn _ v(2)])
    show "\<not> fv_less (fv_max x y) y" using fv_max_cases [OF n(1,2)]
      by (auto simp: fv_less_irrefl)
  qed
  from mem lx ly v(3) show ?case by (simp add: is_max_def)
qed

lemma foldl_fv_min: "is_min (foldl fv_min x xs) (x # xs)"
proof (cases "NaN \<in> set (x # xs)")
  case True
  then have "foldl fv_min x xs = NaN" by (rule foldl_fv_min_NaN)
  with True show ?thesis by (simp add: is_min_def fv_less_NaN del: set_simps)
next
  case False
  then show ?thesis by (rule foldl_fv_min_numbers)
qed

lemma foldl_fv_max: "is_max (foldl fv_max x xs) (x # xs)"
proof (cases "NaN \<in> set (x # xs)")
  case True
  then have "foldl fv_max x xs = NaN" by (rule foldl_fv_max_NaN)
  with True show ?thesis by (simp add: is_max_def fv_less_NaN del: set_simps)
next
  case False
  then show ?thesis by (rule foldl_fv_max_numbers)
qed

lemma reduce_fv_min: "xs \<noteq> [] \<Longrightarrow> \<exists>v. reduce fv_min xs = Inr v \<and> is_min v xs"
  by (cases xs) (simp_all add: reduce_def foldl_fv_min del: foldl.simps set_simps)

lemma reduce_fv_max: "xs \<noteq> [] \<Longrightarrow> \<exists>v. reduce fv_max xs = Inr v \<and> is_max v xs"
  by (cases xs) (simp_all add: reduce_def foldl_fv_max del: foldl.simps set_simps)

subsection \<open>Bounds\<close>

lemma upt_3: "[0..<3] = [0, 1, 2]"
  by (simp add: upt_rec)

lemma reduce_axis0_cols3:
  assumes "point_cloud arr hc"
  shows "reduce_axis0 f (cols_upto 3 arr) =
         ebind (reduce f (column 0 arr)) (\<lambda>a.
         ebind (reduce f (column 1 arr)) (\<lambda>b.
         ebind (reduce f (column 2 arr)) (\<lambda>c. Inr [a, b, c])))"
proof -
  have n: "ncols (cols_upto 3 arr) = 3"
    using assms by (simp add: point_cloud_def cols_upto_def split: if_splits)
  have col: "map (\<lambda>r. f32_val (r ! j)) (rows (cols_upto 3 arr)) = column j arr" if "j < 3" for j
    using that by (simp add: cols_upto_def column_def)
  have "reduce_axis0 f (cols_upto 3 arr) =
        emap (\<lambda>j. reduce f (map (\<lambda>r. f32_val (r ! j)) (rows (cols_upto 3 arr)))) [0, 1, 2]"
    by (simp only: reduce_axis0_def n upt_3)
  also have "\<dots> = ebind (reduce f (column 0 arr)) (\<lambda>a.
         ebind (reduce f (column 1 arr)) (\<lambda>b.
         ebind (reduce f (column 2 arr)) (\<lambda>c. Inr [a, b, c])))"
    by (cases "reduce f (column 0 arr)"; cases "reduce f (column 1 arr)";
        cases "reduce f (column 2 arr)") (simp_all add: col ebind_def)
  finally show ?thesis .
qed

lemma describe_empty:
  assumes "rows arr = []"
  shows "isl (describe path arr hc)"
    and "point_cloud arr hc \<Longrightarrow> describe path arr hc = Inl ZeroSizeReduction"
proof -
  show "point_cloud arr hc \<Longrightarrow> describe path arr hc = Inl ZeroSizeReduction"
    using assms
    by (simp add: describe_def reduce_axis0_cols3 column_def reduce_def ebind_def)
  show "isl (describe path arr hc)"
  proof (cases "min 3 (ncols arr)")
    case 0
    then have "reduce_axis0 fv_min (cols_upto 3 arr) = Inr []"
      "reduce_axis0 fv_max (cols_upto 3 arr) = Inr []"
      by (simp_all add: reduce_axis0_def cols_upto_def)
    then show ?thesis by (simp add: describe_def ebind_def idx_def)
  next
    case (Suc n)
    then have "[0..<min 3 (ncols arr)] = 0 # [1..<Suc n]" by (simp add: upt_rec)
    then have "reduce_axis0 fv_min (cols_upto 3 arr) = Inl ZeroSizeReduction"
      using assms by (simp add: reduce_axis0_def cols_upto_def reduce_def ebind_def)
    then show ?thesis by (simp add: describe_def ebind_def)
  qed
qed


lemma sample_values:
  "f32_val 0x3F800000 = Finite 1" "f32_val 0xBF800000 = Finite (- 1)"
  "f32_val 0x40000000 = Finite 2" "f32_val 0x40400000 = Finite 3"
  by (simp_all add: f32_val_def f32_sign_def pow2_def)


section \<open>Properties of the loader\<close>

subsection \<open>A file without points\<close>

text \<open>
  Claim C9. The claim is that \<^verbatim>\<open>load\<close> raises for every file from which no point can be
  loaded. The reader of the rich formats does reject an empty result
  (\<^verbatim>\<open>if len(pts) == 0: return None\<close>), and a missing file does raise; the text reader has no
  such check. For an empty file \<^verbatim>\<open>np.loadtxt\<close> returns the empty 1-d array (with a warning),
  the reshape makes it an array of one row and no column, and \<^verbatim>\<open>load_point_cloud\<close> returns
  it as a cloud, of which \<^verbatim>\<open>to_binary_buffer\<close> sends a header announcing one point and no
  position.
\<close>

theorem load_point_cloud_empty_file:
  "load_point_cloud \<lparr>suffix = ''.xyz'', open3d_read = None, loadtxt = Some (Arr1 [])\<rparr> =
     Inr (\<lparr>ncols = 0, rows = [[]]\<rparr>, False) \<and>
   to_binary_buffer \<lparr>suffix = ''.xyz'', open3d_read = None, loadtxt = Some (Arr1 [])\<rparr> =
     Inr [1, 0, 0, 0, 0] \<and>
   try_open3d (Some \<lparr>o3d_points = [], o3d_colors = []\<rparr>) = None \<and>
   load_point_cloud \<lparr>suffix = ''.xyz'', open3d_read = None, loadtxt = None\<rparr> =
     Inl UnableToLoad"
  by (simp add: load_point_cloud_def read_data_def load_xyz_def try_open3d_def normalise_def
      cols_upto_def cols_3_6_def to_binary_buffer_def encode_def ebind_def le_bytes32_def)

subsection \<open>Division by 255 of a sample between 0 and 255\<close>

lemma round_f32_unit:
  assumes "0 \<le> x" and "x \<le> 1"
  shows "round_f32 x \<le> 1"
proof (cases "x = 0")
  case True
  then show ?thesis by (simp add: round_f32_def)
next
  case False
  with assms have x: "0 < x" by simp
  let ?q = "ulp_exp x"
  have "x < pow2 1" using assms(2) by (simp add: pow2_def)
  with x have "ilog2 x < 1" by (rule ilog2_less)
  then have q: "?q \<le> 0" by (simp add: ulp_exp_def)
  then have "pow2 (- ?q) = 2 ^ nat (- ?q)" by (simp add: pow2_def)
  then have p: "pow2 (- ?q) = of_int (2 ^ nat (- ?q))" by simp
  have nz: "pow2 ?q \<noteq> 0" by (rule not_sym, rule less_imp_neq, rule pow2_pos)
  have "x / pow2 ?q = x * pow2 (- ?q)" by (simp add: pow2_neg)
  also have "\<dots> \<le> 1 * pow2 (- ?q)" using assms(2) by (intro mult_right_mono) (simp_all add: less_imp_le)
  finally have "x / pow2 ?q \<le> of_int (2 ^ nat (- ?q))" by (simp add: p)
  then have "rne (x / pow2 ?q) \<le> 2 ^ nat (- ?q)" by (rule rne_le)
  then have "(of_int (rne (x / pow2 ?q)) :: rat) \<le> of_int (2 ^ nat (- ?q))"
    by (simp only: of_int_le_iff)
  then have "of_int (rne (x / pow2 ?q)) \<le> pow2 (- ?q)" by (simp only: p)
  then have "of_int (rne (x / pow2 ?q)) * pow2 ?q \<le> pow2 (- ?q) * pow2 ?q"
    by (intro mult_right_mono) (simp_all add: less_imp_le)
  also have "\<dots> = 1" using nz by (simp add: pow2_neg)
  finally show ?thesis using False by (simp add: round_f32_def)
qed

lemma fl32_unit: "0 \<le> x \<Longrightarrow> x \<le> 1 \<Longrightarrow> 0 \<le> fl32 x \<and> fl32 x \<le> 1"
  by (simp add: fl32_def round_f32_nonneg round_f32_unit)

lemma in_range_div255:
  assumes "in_range 0 255 w"
  shows "in_range 0 1 (f32_div255 w)"
proof -
  from assms obtain c where c: "f32_val w = Finite c" "0 \<le> c" "c \<le> 255"
    by (auto simp: in_range_def split: fval.splits)
  have "0 \<le> c / 255" "c / 255 \<le> 1" using c by simp_all
  then have "0 \<le> fl32 (c / 255) \<and> fl32 (c / 255) \<le> 1" by (rule fl32_unit)
  then show ?thesis by (simp add: in_range_def f32_val_div255 [OF c(1)])
qed

subsection \<open>The slices of the returned array\<close>

lemma plain_row:
  "take 3 (drop 3 (take 6 r)) = take 3 (drop 3 r)" "take 3 (take 6 r) = take 3 r"
  by (simp_all add: drop_take)

lemma cols_unscaled:
  "rows (cols_3_6 (cols_upto 6 a)) = rows (cols_3_6 a)"
  "rows (cols_upto 3 (cols_upto 6 a)) = rows (cols_upto 3 a)"
  "length (rows (cols_upto 6 a)) = length (rows a)"
  by (simp_all add: cols_3_6_def cols_upto_def plain_row)

lemma cols_scaled:
  assumes "regular a" and "6 \<le> ncols a"
  shows "rows (cols_3_6 (cols_upto 6 (scale_colors a))) = map (map f32_div255) (rows (cols_3_6 a))"
    and "rows (cols_upto 3 (cols_upto 6 (scale_colors a))) = rows (cols_upto 3 a)"
    and "length (rows (cols_upto 6 (scale_colors a))) = length (rows a)"
    and "regular (scale_colors a)" and "ncols (scale_colors a) = ncols a"
proof -
  define srow where
    "srow = (\<lambda>r :: f32 list. take 3 r @ map f32_div255 (take 3 (drop 3 r)) @ drop 6 r)"
  have r: "6 \<le> length r" if "r \<in> set (rows a)" for r
    using assms that by (simp add: regular_def)
  have sc: "rows (scale_colors a) = map srow (rows a)"
    by (simp add: scale_colors_def srow_def)
  have c: "take 3 (drop 3 (take 6 (srow r))) = map f32_div255 (take 3 (drop 3 r))"
    and p: "take 3 (take 6 (srow r)) = take 3 r" and l: "length (srow r) = length r"
    if "r \<in> set (rows a)" for r
    unfolding srow_def using r [OF that] by simp_all
  have "rows (cols_3_6 (cols_upto 6 (scale_colors a))) =
        map (\<lambda>r. take 3 (drop 3 (take 6 (srow r)))) (rows a)"
    unfolding cols_3_6_def cols_upto_def sc by (simp add: comp_def)
  also have "\<dots> = map (\<lambda>r. map f32_div255 (take 3 (drop 3 r))) (rows a)"
    by (rule map_cong [OF refl]) (rule c)
  also have "\<dots> = map (map f32_div255) (rows (cols_3_6 a))"
    by (simp add: cols_3_6_def comp_def)
  finally show "rows (cols_3_6 (cols_upto 6 (scale_colors a))) =
      map (map f32_div255) (rows (cols_3_6 a))" .
  have "rows (cols_upto 3 (cols_upto 6 (scale_colors a))) =
        map (\<lambda>r. take 3 (take 6 (srow r))) (rows a)"
    unfolding cols_upto_def sc by (simp add: comp_def)
  also have "\<dots> = map (take 3) (rows a)"
    by (rule map_cong [OF refl]) (rule p)
  also have "\<dots> = rows (cols_upto 3 a)" by (simp add: cols_upto_def)
  finally show "rows (cols_upto 3 (cols_upto 6 (scale_colors a))) = rows (cols_upto 3 a)" .
  show "length (rows (cols_upto 6 (scale_colors a))) = length (rows a)"
    by (simp add: cols_upto_def sc)
  show "ncols (scale_colors a) = ncols a" by (simp add: scale_colors_def)
  have "length x = ncols a" if "x \<in> set (map srow (rows a))" for x
  proof -
    from that obtain y where y: "y \<in> set (rows a)" "x = srow y" by auto
    with l [OF y(1)] assms(1) show ?thesis by (simp add: regular_def)
  qed
  then show "regular (scale_colors a)"
    unfolding regular_def sc \<open>ncols (scale_colors a) = ncols a\<close> by blast
qed

lemma point_cloud_cols_upto_6:
  "regular a \<Longrightarrow> 6 \<le> ncols a \<Longrightarrow> point_cloud (cols_upto 6 a) True"
  by (auto simp: point_cloud_def regular_def cols_upto_def)

lemma color_samples_nonempty:
  assumes "regular a" and "6 \<le> ncols a" and "rows a \<noteq> []"
  shows "color_samples a \<noteq> []"
proof -
  from assms(3) obtain r rs where rs: "rows a = r # rs" by (cases "rows a") auto
  with assms have "6 \<le> length r" by (simp add: regular_def)
  then have "take 3 (drop 3 r) \<noteq> []" by auto
  with rs show ?thesis by (simp add: color_samples_def cols_3_6_def)
qed

lemma normalise_colors:
  assumes "6 \<le> ncols a" and "color_samples a \<noteq> []"
  shows "\<exists>mx. is_max mx (map f32_val (color_samples a)) \<and>
           normalise (Arr2 a) =
             Inr (cols_upto 6 (if fv_less (Finite (3 / 2)) mx then scale_colors a else a), True)"
proof -
  from assms(2) have "map f32_val (color_samples a) \<noteq> []" by simp
  from reduce_fv_max [OF this] obtain mx where
    mx: "reduce fv_max (map f32_val (color_samples a)) = Inr mx"
      "is_max mx (map f32_val (color_samples a))" by blast
  have "reduce_all fv_max (cols_3_6 a) = Inr mx"
    using mx(1) by (simp add: reduce_all_def color_samples_def)
  then have "normalise (Arr2 a) =
      Inr (cols_upto 6 (if fv_less (Finite (3 / 2)) mx then scale_colors a else a), True)"
    using assms(1) by (simp add: normalise_def ebind_def)
  with mx(2) show ?thesis by blast
qed

lemma fv_less_le_trans:
  "fv_less t v \<Longrightarrow> \<not> fv_less mx v \<Longrightarrow> mx \<noteq> NaN \<Longrightarrow> fv_less t mx"
  by (cases t; cases v; cases mx) auto

lemma threshold_max:
  assumes "is_max mx vs" and "NaN \<notin> set vs"
  shows "fv_less t mx \<longleftrightarrow> (\<exists>v \<in> set vs. fv_less t v)"
proof
  assume "fv_less t mx"
  with assms(1) show "\<exists>v \<in> set vs. fv_less t v" by (auto simp: is_max_def)
next
  assume "\<exists>v \<in> set vs. fv_less t v"
  then obtain v where v: "v \<in> set vs" "fv_less t v" by blast
  from assms have "mx \<noteq> NaN" "\<not> fv_less mx v" using v(1) by (auto simp: is_max_def)
  with v(2) show "fv_less t mx" by (blast intro: fv_less_le_trans)
qed


subsection \<open>The decision on the maximum\<close>

lemma reduce_fv_max_NaN:
  assumes "NaN \<in> set xs"
  shows "reduce fv_max xs = Inr NaN"
proof (cases xs)
  case Nil
  with assms show ?thesis by simp
next
  case (Cons y ys)
  with assms have "foldl fv_max y ys = NaN" by (intro foldl_fv_max_NaN) simp
  with Cons show ?thesis by (simp add: reduce_def del: foldl.simps)
qed

lemma normalise_unscaled:
  assumes "6 \<le> ncols a" and "color_samples a \<noteq> []"
    and "\<forall>w \<in> set (color_samples a). \<not> fv_less (Finite (3 / 2)) (f32_val w)"
  shows "normalise (Arr2 a) = Inr (cols_upto 6 a, True)"
proof -
  from normalise_colors [OF assms(1,2)] obtain mx where
    mx: "is_max mx (map f32_val (color_samples a))"
      "normalise (Arr2 a) =
         Inr (cols_upto 6 (if fv_less (Finite (3 / 2)) mx then scale_colors a else a), True)"
    by blast
  from mx(1) have "mx \<in> f32_val ` set (color_samples a)" by (simp add: is_max_def)
  with assms(3) have "\<not> fv_less (Finite (3 / 2)) mx" by blast
  with mx(2) show ?thesis by simp
qed

lemma normalise_NaN:
  assumes "6 \<le> ncols a" and "NaN \<in> f32_val ` set (color_samples a)"
  shows "normalise (Arr2 a) = Inr (cols_upto 6 a, True)"
proof -
  from assms(2) have "NaN \<in> set (map f32_val (color_samples a))" by simp
  then have "reduce fv_max (map f32_val (color_samples a)) = Inr NaN"
    by (rule reduce_fv_max_NaN)
  then have "reduce_all fv_max (cols_3_6 a) = Inr NaN"
    by (simp add: reduce_all_def color_samples_def)
  then show ?thesis using assms(1) by (simp add: normalise_def ebind_def)
qed

lemma normalise_scaled:
  assumes "6 \<le> ncols a" and "NaN \<notin> f32_val ` set (color_samples a)"
    and "\<exists>w \<in> set (color_samples a). fv_less (Finite (3 / 2)) (f32_val w)"
  shows "normalise (Arr2 a) = Inr (cols_upto 6 (scale_colors a), True)"
proof -
  from assms(3) have ne: "color_samples a \<noteq> []" by auto
  from normalise_colors [OF assms(1) ne] obtain mx where
    mx: "is_max mx (map f32_val (color_samples a))"
      "normalise (Arr2 a) =
         Inr (cols_upto 6 (if fv_less (Finite (3 / 2)) mx then scale_colors a else a), True)"
    by blast
  from assms(2) have n: "NaN \<notin> set (map f32_val (color_samples a))" by simp
  from assms(3) have "\<exists>v \<in> set (map f32_val (color_samples a)). fv_less (Finite (3 / 2)) v"
    by simp
  then have "fv_less (Finite (3 / 2)) mx" using threshold_max [OF mx(1) n] by blast
  with mx(2) show ?thesis by simp
qed

lemma load_point_cloud_read:
  "read_data src = Some d \<Longrightarrow> load_point_cloud src = normalise d"
  by (simp add: load_point_cloud_def)

lemma color_samples_unscaled: "color_samples (cols_upto 6 a) = color_samples a"
  by (simp add: color_samples_def cols_unscaled(1))

lemma color_samples_scaled:
  assumes "regular a" and "6 \<le> ncols a"
  shows "color_samples (cols_upto 6 (scale_colors a)) = map f32_div255 (color_samples a)"
  by (simp add: color_samples_def cols_scaled(1) [OF assms] map_concat)

lemma in_range_number: "in_range lo hi w \<Longrightarrow> f32_val w \<noteq> NaN"
  by (auto simp: in_range_def)

lemma in_range_unit_threshold: "in_range 0 1 w \<Longrightarrow> \<not> fv_less (Finite (3 / 2)) (f32_val w)"
  by (auto simp: in_range_def split: fval.splits)

lemma normalise_with_colors:
  assumes "normalise (Arr2 a) = Inr (arr, True)"
  shows "6 \<le> ncols a" and "color_samples a \<noteq> []"
proof -
  show c: "6 \<le> ncols a"
  proof (rule ccontr)
    assume "\<not> 6 \<le> ncols a"
    with assms show False by (simp add: normalise_def)
  qed
  show "color_samples a \<noteq> []"
  proof
    assume "color_samples a = []"
    then have "map f32_val (concat (rows (cols_3_6 a))) = []"
      unfolding color_samples_def by (rule arg_cong [where f = "map f32_val", THEN trans]) simp
    then have "reduce_all fv_max (cols_3_6 a) = Inl ZeroSizeReduction"
      unfolding reduce_all_def reduce_def by (simp only: list.case)
    with c assms show False by (simp add: normalise_def ebind_def)
  qed
qed

subsection \<open>Sample files\<close>

text \<open>
  A text file of one line is read as a 1-d array and reshaped to one row. The samples used
  below are \<open>0\<close>, \<open>0.5\<close>, \<open>1\<close>, \<open>1.25\<close>, \<open>200\<close>, \<open>255\<close> and a NaN.
\<close>

lemma color_values:
  "f32_val 0 = Finite 0" "f32_val 0x3F000000 = Finite (1 / 2)" "f32_val 0x3F800000 = Finite 1"
  "f32_val 0x3FA00000 = Finite (5 / 4)" "f32_val 0x43480000 = Finite 200"
  "f32_val 0x437F0000 = Finite 255" "f32_val 0x7FC00000 = NaN"
  by (simp_all add: f32_val_def f32_sign_def pow2_def)

lemma div255_values: "f32_div255 0x437F0000 = 0x3F800000" "f32_div255 0 = 0"
  by code_simp+

lemma text_source:
  "read_data \<lparr>suffix = ''.xyz'', open3d_read = None, loadtxt = Some (Arr1 xs)\<rparr> =
     Some (Arr2 \<lparr>ncols = length xs, rows = [xs]\<rparr>)"
  by (simp add: read_data_def load_xyz_def)

subsection \<open>The range of the colours\<close>




subsection \<open>The scaling of the colours\<close>



end
